theory Spec2Isabelle
  imports Main
begin

section \<open>The nested tree\<close>

text \<open>
  \<^verbatim>\<open>ITreeNode<TTreeNode>\<close> is any object with an optional array \<^verbatim>\<open>children\<close>.
  The service compares nodes with \<^verbatim>\<open>===\<close> only, so every object carries its
  identity \<open>ref\<close>; \<open>payload\<close> stands for the consumer's own fields (the tests use
  \<^verbatim>\<open>name\<close>) and \<open>children\<close> is \<open>None\<close> where the field is undefined.

  A value of type \<open>node\<close> is an object together with everything it owns, which is
  how the nested literal of the tests reads. The model is meant for tree-shaped data:
  every object occurs once (\<open>distinct (refs nodes)\<close> below). A parameter of type
  \<^verbatim>\<open>TTreeNode\<close> of which the source uses the identity only is a \<open>ref\<close>; one of
  which it reads the fields is a \<open>node\<close>. The queries of the service read nothing of
  it but \<^verbatim>\<open>this._data\<close>, which is their first argument here.
\<close>

type_synonym ref = nat

datatype 'a node = Node (ref: ref) (payload: 'a) (children: "'a node list option")

text \<open>All identities of a forest in depth-first order, parents before children.\<close>

fun refs_node :: "'a node \<Rightarrow> ref list"
  and refs :: "'a node list \<Rightarrow> ref list" where
  "refs_node (Node r x cs) = r # (case cs of None \<Rightarrow> [] | Some ch \<Rightarrow> refs ch)"
| "refs [] = []"
| "refs (c # rest) = refs_node c @ refs rest"

text \<open>
  The parent-child pairs of a forest, in the order in which \<^verbatim>\<open>_getParent\<close> looks at
  them: a node's pair with a child, then the pairs below that child, then the next child.
\<close>

fun edges_from :: "ref \<Rightarrow> 'a node list \<Rightarrow> (ref \<times> ref) list"
  and edges_node :: "'a node \<Rightarrow> (ref \<times> ref) list" where
  "edges_from p [] = []"
| "edges_from p (c # rest) = (p, ref c) # edges_node c @ edges_from p rest"
| "edges_node (Node r x cs) = (case cs of None \<Rightarrow> [] | Some ch \<Rightarrow> edges_from r ch)"

fun edges :: "'a node list \<Rightarrow> (ref \<times> ref) list" where
  "edges [] = []"
| "edges (c # rest) = edges_node c @ edges rest"

text \<open>All objects of a forest, parents before children.\<close>

fun objects_node :: "'a node \<Rightarrow> 'a node list"
  and objects :: "'a node list \<Rightarrow> 'a node list" where
  "objects_node (Node r x cs) = Node r x cs # (case cs of None \<Rightarrow> [] | Some ch \<Rightarrow> objects ch)"
| "objects [] = []"
| "objects (c # rest) = objects_node c @ objects rest"

text \<open>
  The root-first paths of a forest: for every object, the identities from its root
  down to it.
\<close>

fun paths_node :: "'a node \<Rightarrow> ref list list"
  and paths :: "'a node list \<Rightarrow> ref list list" where
  "paths_node (Node r x cs) = [r] # map ((#) r) (case cs of None \<Rightarrow> [] | Some ch \<Rightarrow> paths ch)"
| "paths [] = []"
| "paths (c # rest) = paths_node c @ paths rest"

text \<open>
  \<open>parentOf d p n\<close>: the forest holds an object \<open>p\<close> whose \<^verbatim>\<open>children\<close> array
  contains the object \<open>n\<close>.
\<close>

definition parentOf :: "'a node list \<Rightarrow> ref \<Rightarrow> ref \<Rightarrow> bool" where
  "parentOf d p n \<longleftrightarrow>
     (\<exists>P \<in> set (objects d). ref P = p \<and>
        (case children P of None \<Rightarrow> False | Some ch \<Rightarrow> n \<in> ref ` set ch))"

subsection \<open>getParent\<close>

text \<open>
  \<^verbatim>\<open>_getParent(node, parentNode)\<close>: the loop over \<^verbatim>\<open>parentNode.children\<close> is
  \<open>getParent_children\<close>; an undefined \<^verbatim>\<open>children\<close> skips it. The source's leading
  underscore is written as a prime.
\<close>

fun getParent' :: "ref \<Rightarrow> 'a node \<Rightarrow> ref option"
  and getParent_children :: "ref \<Rightarrow> ref \<Rightarrow> 'a node list \<Rightarrow> ref option" where
  "getParent' node (Node p x cs) =
     (case cs of None \<Rightarrow> None | Some ch \<Rightarrow> getParent_children node p ch)"
| "getParent_children node p [] = None"
| "getParent_children node p (childNode # rest) =
     (if ref childNode = node then Some p
      else (case getParent' node childNode of
              Some childParentNode \<Rightarrow> Some childParentNode
            | None \<Rightarrow> getParent_children node p rest))"

text \<open>\<^verbatim>\<open>getParent(node)\<close>: the loop over the root collection \<^verbatim>\<open>_data\<close>.\<close>

fun getParent :: "'a node list \<Rightarrow> ref \<Rightarrow> ref option" where
  "getParent [] node = None"
| "getParent (rootNode # rest) node =
     (case getParent' node rootNode of
        Some parentNode \<Rightarrow> Some parentNode
      | None \<Rightarrow> getParent rest node)"

text \<open>\<^verbatim>\<open>isSibling\<close>: \<^verbatim>\<open>==\<close> on two objects-or-null is identity, and null equals null.\<close>

definition isSibling :: "'a node list \<Rightarrow> ref \<Rightarrow> ref \<Rightarrow> bool" where
  "isSibling data node sibling \<longleftrightarrow> getParent data node = getParent data sibling"

subsection \<open>getNodePath\<close>

text \<open>
  The \<^verbatim>\<open>while (parentNode !== null)\<close> loop. Nothing in the loop itself bounds it, so
  it is a partial function: \<open>None\<close> is a loop that does not return.
\<close>

partial_function (option) getNodePath_loop ::
  "'a node list \<Rightarrow> ref list \<Rightarrow> ref option \<Rightarrow> ref list option" where
  "getNodePath_loop data nodePath parentNode =
     (case parentNode of
        None \<Rightarrow> Some nodePath
      | Some p \<Rightarrow> getNodePath_loop data (nodePath @ [p]) (getParent data p))"

declare getNodePath_loop.simps [code]

definition getNodePath :: "'a node list \<Rightarrow> ref \<Rightarrow> ref list option" where
  "getNodePath data node =
     map_option rev (getNodePath_loop data [node] (getParent data node))"

subsection \<open>Arrays\<close>

text \<open>
  \<^verbatim>\<open>Array.prototype.indexOf\<close> on an array of objects: the first position holding
  the same object, or -1.
\<close>

fun indexOf :: "'a node list \<Rightarrow> ref \<Rightarrow> int" where
  "indexOf [] node = -1"
| "indexOf (c # rest) node =
     (if ref c = node then 0
      else (let i = indexOf rest node in if i = -1 then -1 else i + 1))"

text \<open>
  \<^verbatim>\<open>Array.prototype.splice(start, deleteCount, ...items)\<close>: a negative \<open>start\<close>
  counts from the end and is clamped at 0, a \<open>start\<close> beyond the end is clamped at the
  length; the array (here: the new array) loses \<open>deleteCount\<close> elements from there, as
  far as it has them, and gains \<open>items\<close> in their place.
\<close>

definition spliceStart :: "int \<Rightarrow> nat \<Rightarrow> nat" where
  "spliceStart start len =
     (if start < 0 then nat (max (int len + start) 0) else min (nat start) len)"

definition splice_array :: "'b list \<Rightarrow> int \<Rightarrow> nat \<Rightarrow> 'b list \<Rightarrow> 'b list" where
  "splice_array xs start deleteCount items =
     (let k = spliceStart start (length xs)
      in take k xs @ items @ drop (k + deleteCount) xs)"

subsection \<open>Writing through a reference\<close>

text \<open>
  The source changes an object in place (\<^verbatim>\<open>parentNode.children.push(node)\<close>). In
  the model the forest holds the objects, so a write through the reference \<open>r\<close>
  replaces the object with that identity by its new state \<open>f\<close> of the old one. The
  forest of the service does not see a write to an object it does not hold.
\<close>

fun mutate_node :: "ref \<Rightarrow> ('a node \<Rightarrow> 'a node) \<Rightarrow> 'a node \<Rightarrow> 'a node"
  and mutate :: "ref \<Rightarrow> ('a node \<Rightarrow> 'a node) \<Rightarrow> 'a node list \<Rightarrow> 'a node list" where
  "mutate_node r f (Node i x cs) =
     (if i = r then f (Node i x cs)
      else Node i x (case cs of None \<Rightarrow> None | Some ch \<Rightarrow> Some (mutate r f ch)))"
| "mutate r f [] = []"
| "mutate r f (c # rest) = mutate_node r f c # mutate r f rest"

text \<open>The object behind a reference, as the forest holds it.\<close>

definition deref :: "'a node list \<Rightarrow> ref \<Rightarrow> 'a node option" where
  "deref data r = find (\<lambda>P. ref P = r) (objects data)"

definition setChildren :: "'a node \<Rightarrow> 'a node list \<Rightarrow> 'a node" where
  "setChildren P ch = Node (ref P) (payload P) (Some ch)"

subsection \<open>delete\<close>

text \<open>
  \<^verbatim>\<open>_delete(nodes, node)\<close>: \<open>delete_each\<close> is its \<^verbatim>\<open>for\<close> loop and \<open>delete_in\<close>
  the body of the loop, which descends only into a non-empty \<^verbatim>\<open>children\<close>. Each
  returns the array or object as the call leaves it.
\<close>

fun delete' :: "'a node list \<Rightarrow> ref \<Rightarrow> 'a node list"
  and delete_each :: "'a node list \<Rightarrow> ref \<Rightarrow> 'a node list"
  and delete_in :: "'a node \<Rightarrow> ref \<Rightarrow> 'a node" where
  "delete' nodes node =
     (let index = indexOf nodes node
      in if index > -1 then splice_array nodes index 1 [] else delete_each nodes node)"
| "delete_each [] node = []"
| "delete_each (c # rest) node = delete_in c node # delete_each rest node"
| "delete_in (Node r x cs) node =
     (case cs of
        None \<Rightarrow> Node r x cs
      | Some ch \<Rightarrow> if length ch > 0 then Node r x (Some (delete' ch node)) else Node r x cs)"

text \<open>
  The specification's wording of the same operation, for comparison: a depth-first
  search that removes the first occurrence of the node from the collection that
  contains it; \<open>None\<close> when the search finds nothing.
\<close>

fun remove_first_dfs :: "ref \<Rightarrow> 'a node list \<Rightarrow> 'a node list option"
  and remove_first_below :: "ref \<Rightarrow> 'a node \<Rightarrow> 'a node option" where
  "remove_first_dfs n [] = None"
| "remove_first_dfs n (c # rest) =
     (if ref c = n then Some rest
      else (case remove_first_below n c of
              Some c' \<Rightarrow> Some (c' # rest)
            | None \<Rightarrow> map_option ((#) c) (remove_first_dfs n rest)))"
| "remove_first_below n (Node r x cs) =
     (case cs of
        None \<Rightarrow> None
      | Some ch \<Rightarrow> map_option (\<lambda>ch'. Node r x (Some ch')) (remove_first_dfs n ch))"

subsection \<open>Deep copies\<close>

text \<open>
  Modelled from the spec: \<^verbatim>\<open>cloneDeep\<close> is lodash's, not part of this repository.
  The specification asks for "a deep, fully independent copy (new ownership, no
  aliasing with the source subtree)": every object of the subtree is copied into a new
  object. New objects take the identities from \<open>k\<close> on, and the function returns the
  copy and the next unused identity.
\<close>

fun cloneDeep :: "ref \<Rightarrow> 'a node \<Rightarrow> 'a node \<times> ref"
  and cloneDeep_list :: "ref \<Rightarrow> 'a node list \<Rightarrow> 'a node list \<times> ref" where
  "cloneDeep k (Node r x cs) =
     (case cs of
        None \<Rightarrow> (Node k x None, Suc k)
      | Some ch \<Rightarrow> (let (ch', k') = cloneDeep_list (Suc k) ch in (Node k x (Some ch'), k')))"
| "cloneDeep_list k [] = ([], k)"
| "cloneDeep_list k (c # rest) =
     (let (c', k') = cloneDeep k c; (rest', k'') = cloneDeep_list k' rest
      in (c' # rest', k''))"

text \<open>What a node is by content: its fields without the identities.\<close>

datatype 'a shape = Shape 'a "'a shape list option"

fun content :: "'a node \<Rightarrow> 'a shape" where
  "content (Node r x cs) = Shape x (map_option (map content) cs)"

section \<open>The service\<close>

text \<open>
  \<^verbatim>\<open>TreeFlatNode\<close> objects are changed in place by \<^verbatim>\<open>transformer\<close> and are shared
  by the map, the tree control's \<^verbatim>\<open>dataNodes\<close> and its expansion model, so they live
  in a store of their own, \<open>flatNodes\<close>, under identities \<open>fref\<close>; \<open>nextFlat\<close> is
  the first identity \<^verbatim>\<open>new TreeFlatNode\<close> has not used. The field \<open>node\<close> is the
  reference to the nested node. \<^verbatim>\<open>number\<close> is read as \<open>int\<close>.
\<close>

type_synonym fref = nat

record TreeFlatNode =
  node :: ref
  expandable :: bool
  level :: int

text \<open>
  The state of \<^verbatim>\<open>TreeNodeService\<close>: \<^verbatim>\<open>_data\<close>, \<^verbatim>\<open>nodeMap\<close>, and what the
  service reads and drives of its collaborators.

  Modelled from the spec: \<^verbatim>\<open>FlatTreeControl\<close>, \<^verbatim>\<open>MatTreeFlatDataSource\<close>,
  \<^verbatim>\<open>MatTreeFlattener\<close> and \<^verbatim>\<open>Subject\<close> belong to the host framework, not to this
  repository. The specification gives the expansion-state capability as
  \<^verbatim>\<open>isExpanded\<close>, \<^verbatim>\<open>expand\<close>, \<^verbatim>\<open>collapse\<close> and "an ordered dataNodes sequence of
  all currently flattened nodes": \<open>expansion\<close> is the set of expanded flat nodes and
  \<open>dataNodes\<close> that sequence. \<open>emitted\<close> lists what the change-notification channel
  has sent. \<open>nextRef\<close> is past every identity that an earlier clone has taken (see
  \<open>freshRef\<close> below).
\<close>

record 'a service =
  data :: "'a node list"
  nodeMap :: "ref \<rightharpoonup> fref"
  flatNodes :: "fref \<Rightarrow> TreeFlatNode"
  nextFlat :: fref
  dataNodes :: "fref list"
  expansion :: "fref set"
  emitted :: "'a node list list"
  nextRef :: ref

definition isExpanded :: "'a service \<Rightarrow> fref \<Rightarrow> bool" where
  "isExpanded s f \<longleftrightarrow> f \<in> expansion s"

definition expand :: "'a service \<Rightarrow> fref \<Rightarrow> 'a service" where
  "expand s f = s\<lparr>expansion := insert f (expansion s)\<rparr>"

definition collapse :: "'a service \<Rightarrow> fref \<Rightarrow> 'a service" where
  "collapse s f = s\<lparr>expansion := expansion s - {f}\<rparr>"

subsection \<open>transformer\<close>

text \<open>\<^verbatim>\<open>node.children != null && node.children.length > 0\<close>\<close>

definition nonEmptyChildren :: "'a node \<Rightarrow> bool" where
  "nonEmptyChildren n = (case children n of None \<Rightarrow> False | Some ch \<Rightarrow> length ch > 0)"

text \<open>
  \<^verbatim>\<open>transformer(node, level)\<close> returns the flat node and leaves the map and the flat
  node changed. An object is truthy, so \<^verbatim>\<open>if (existingNode)\<close> asks whether the map has
  the key.
\<close>

definition transformer :: "'a service \<Rightarrow> 'a node \<Rightarrow> int \<Rightarrow> fref \<times> 'a service" where
  "transformer s n lvl =
     (case nodeMap s (ref n) of
        Some existingNode \<Rightarrow>
          (existingNode,
           s\<lparr>flatNodes := (flatNodes s)(existingNode :=
                 (flatNodes s existingNode)\<lparr>level := lvl, expandable := nonEmptyChildren n\<rparr>),
             nodeMap := (nodeMap s)(ref n \<mapsto> existingNode)\<rparr>)
      | None \<Rightarrow>
          (let flatNode = nextFlat s
           in (flatNode,
               s\<lparr>flatNodes := (flatNodes s)(flatNode :=
                     \<lparr>node = ref n, expandable = nonEmptyChildren n, level = lvl\<rparr>),
                 nextFlat := Suc flatNode,
                 nodeMap := (nodeMap s)(ref n \<mapsto> flatNode)\<rparr>)))"

definition getFlatNode :: "'a service \<Rightarrow> ref \<Rightarrow> fref option" where
  "getFlatNode s n = nodeMap s n"

definition hasChildren :: "'a service \<Rightarrow> int \<Rightarrow> fref \<Rightarrow> bool" where
  "hasChildren s i f = expandable (flatNodes s f)"

definition isRoot :: "'a service \<Rightarrow> int \<Rightarrow> fref \<Rightarrow> bool" where
  "isRoot s lvl f \<longleftrightarrow> level (flatNodes s f) = 0"

subsection \<open>update\<close>

text \<open>
  Modelled from the spec: the flattening capability, "given the transformer, a
  level-accessor, an expandable-accessor, and a children-accessor, produces the
  flattened sequence". It calls \<open>transformer\<close> on every node, a root at level 0 and a
  child one level below its parent, parents before children, and descends where the flat
  node is expandable and the node has a \<^verbatim>\<open>children\<close> array.
\<close>

fun flattenNode :: "'a node \<Rightarrow> int \<Rightarrow> fref list \<times> 'a service \<Rightarrow> fref list \<times> 'a service"
  and flattenChildren ::
    "'a node list \<Rightarrow> int \<Rightarrow> fref list \<times> 'a service \<Rightarrow> fref list \<times> 'a service" where
  "flattenNode (Node r x cs) lvl (resultNodes, s) =
     (let (flatNode, s') = transformer s (Node r x cs) lvl;
          acc = (resultNodes @ [flatNode], s')
      in if expandable (flatNodes s' flatNode)
         then (case cs of None \<Rightarrow> acc | Some ch \<Rightarrow> flattenChildren ch lvl acc)
         else acc)"
| "flattenChildren [] lvl acc = acc"
| "flattenChildren (c # rest) lvl acc = flattenChildren rest lvl (flattenNode c (lvl + 1) acc)"

definition flattenNodes :: "'a node list \<Rightarrow> 'a service \<Rightarrow> fref list \<times> 'a service" where
  "flattenNodes structuredData s = foldl (\<lambda>acc n. flattenNode n 0 acc) ([], s) structuredData"

text \<open>
  \<^verbatim>\<open>update()\<close>: assigning \<^verbatim>\<open>dataSource.data\<close> flattens the data and hands the result
  to the tree control; then the subject emits the data.
\<close>

definition update :: "'a service \<Rightarrow> 'a service" where
  "update s =
     (let (flat, s') = flattenNodes (data s) s
      in s'\<lparr>dataNodes := flat, emitted := emitted s' @ [data s']\<rparr>)"

text \<open>The setter of \<^verbatim>\<open>data\<close>.\<close>

definition setData :: "'a service \<Rightarrow> 'a node list \<Rightarrow> 'a service" where
  "setData s treeTableNodes = update (s\<lparr>data := treeTableNodes\<rparr>)"

subsection \<open>Mutations\<close>

text \<open>
  \<^verbatim>\<open>insertChild\<close>: the write to \<^verbatim>\<open>parentNode\<close> makes an undefined \<^verbatim>\<open>children\<close> the
  empty array and pushes the node.
\<close>

definition insertChild :: "'a service \<Rightarrow> ref \<Rightarrow> 'a node \<Rightarrow> 'a service" where
  "insertChild s parentNode n =
     update (s\<lparr>data := mutate parentNode
        (\<lambda>P. setChildren P ((case children P of None \<Rightarrow> [] | Some ch \<Rightarrow> ch) @ [n])) (data s)\<rparr>)"

text \<open>
  \<^verbatim>\<open>_insertSibling\<close>: \<open>parentChildren\<close> is the array \<^verbatim>\<open>parentNode.children\<close> when
  \<^verbatim>\<open>parentNode !== null && parentNode.children !== undefined\<close>, read from the object
  behind the reference.
\<close>

definition parentChildren ::
  "'a node list \<Rightarrow> ref option \<Rightarrow> (ref \<times> 'a node list) option" where
  "parentChildren d parentNode =
     (case parentNode of
        None \<Rightarrow> None
      | Some p \<Rightarrow> (case deref d p of None \<Rightarrow> None | Some P \<Rightarrow> map_option (Pair p) (children P)))"

definition insertSibling :: "'a service \<Rightarrow> ref \<Rightarrow> 'a node \<Rightarrow> int \<Rightarrow> 'a service" where
  "insertSibling s siblingNode n index =
     update
       (case parentChildren (data s) (getParent (data s) siblingNode) of
          Some (parentNode, ch) \<Rightarrow>
            s\<lparr>data := mutate parentNode
                (\<lambda>P. setChildren P (splice_array ch (indexOf ch siblingNode + index) 0 [n]))
                (data s)\<rparr>
        | None \<Rightarrow>
            s\<lparr>data := splice_array (data s) (indexOf (data s) siblingNode + index) 0 [n]\<rparr>)"

definition insertBefore :: "'a service \<Rightarrow> ref \<Rightarrow> 'a node \<Rightarrow> 'a service" where
  "insertBefore s siblingNode n = insertSibling s siblingNode n 0"

definition insertAfter :: "'a service \<Rightarrow> ref \<Rightarrow> 'a node \<Rightarrow> 'a service" where
  "insertAfter s siblingNode n = insertSibling s siblingNode n 1"

definition delete :: "'a service \<Rightarrow> ref \<Rightarrow> 'a service" where
  "delete s n = update (s\<lparr>data := delete' (data s) n\<rparr>)"

subsection \<open>Clones\<close>

text \<open>
  A new object is none of the objects that exist. \<open>freshRef\<close> is the identity from
  which a clone of \<open>originalNode\<close> takes its new objects: it is past the objects of
  the data, past the nodes the flat nodes of the service stand for (the keys of its
  map, which outlive a \<^verbatim>\<open>delete\<close>), past the objects of the original, and past
  the objects of earlier clones.
\<close>

definition freshRef :: "'a service \<Rightarrow> 'a node \<Rightarrow> ref" where
  "freshRef s originalNode =
     fold max
       (map Suc (refs (data s) @ map (\<lambda>f. node (flatNodes s f)) [0..<nextFlat s] @
                 refs_node originalNode))
       (nextRef s)"

text \<open>
  \<^verbatim>\<open>cloneAsChild\<close> calls \<^verbatim>\<open>cloneDeep\<close> twice: once for the node it returns and once
  in the argument of \<^verbatim>\<open>insertChild\<close>. The other two insert the node they return.
\<close>

definition cloneAsChild :: "'a service \<Rightarrow> 'a node \<Rightarrow> ref \<Rightarrow> 'a node \<times> 'a service" where
  "cloneAsChild s originalNode parentNode =
     (let (clonedNode, k) = cloneDeep (freshRef s originalNode) originalNode;
          (inserted, k') = cloneDeep k originalNode
      in (clonedNode, insertChild (s\<lparr>nextRef := k'\<rparr>) parentNode inserted))"

definition cloneAsSiblingBefore :: "'a service \<Rightarrow> 'a node \<Rightarrow> ref \<Rightarrow> 'a node \<times> 'a service" where
  "cloneAsSiblingBefore s originalNode siblingNode =
     (let (clonedNode, k) = cloneDeep (freshRef s originalNode) originalNode
      in (clonedNode, insertBefore (s\<lparr>nextRef := k\<rparr>) siblingNode clonedNode))"

definition cloneAsSiblingAfter :: "'a service \<Rightarrow> 'a node \<Rightarrow> ref \<Rightarrow> 'a node \<times> 'a service" where
  "cloneAsSiblingAfter s originalNode siblingNode =
     (let (clonedNode, k) = cloneDeep (freshRef s originalNode) originalNode
      in (clonedNode, insertAfter (s\<lparr>nextRef := k\<rparr>) siblingNode clonedNode))"

subsection \<open>Expansion\<close>

definition isParentExpanded :: "'a service \<Rightarrow> ref \<Rightarrow> bool" where
  "isParentExpanded s n =
     (case getParent (data s) n of
        None \<Rightarrow> False
      | Some parent \<Rightarrow>
          (case nodeMap s parent of None \<Rightarrow> False | Some flatNode \<Rightarrow> isExpanded s flatNode))"

text \<open>
  \<^verbatim>\<open>toggleNode\<close>: the \<^verbatim>\<open>for\<close> loop over \<^verbatim>\<open>treeControl.dataNodes\<close> is a fold; its
  body expands or collapses one flat node. The result is \<open>None\<close> where
  \<^verbatim>\<open>getNodePath\<close> does not return.
\<close>

definition toggleStep :: "fref \<Rightarrow> ref list \<Rightarrow> 'a service \<Rightarrow> fref \<Rightarrow> 'a service" where
  "toggleStep flatNode nodePath s n =
     (if n = flatNode \<or> node (flatNodes s n) \<in> set nodePath then expand s n else collapse s n)"

definition toggleNode :: "'a service \<Rightarrow> fref \<Rightarrow> 'a service option" where
  "toggleNode s flatNode =
     (if isExpanded s flatNode then Some (collapse s flatNode)
      else (case getNodePath (data s) (node (flatNodes s flatNode)) of
              None \<Rightarrow> None
            | Some nodePath \<Rightarrow> Some (foldl (toggleStep flatNode nodePath) s (dataNodes s))))"

definition expandLevel :: "'a service \<Rightarrow> int \<Rightarrow> 'a service" where
  "expandLevel s lvl =
     foldl (\<lambda>s' n. if level (flatNodes s' n) = lvl then expand s' n else s') s (dataNodes s)"

subsection \<open>The operations of the service\<close>

text \<open>
  What a consumer can do with the service: its methods, the setter of \<^verbatim>\<open>data\<close>, and
  \<^verbatim>\<open>expand\<close> and \<^verbatim>\<open>collapse\<close> of the public tree control. \<open>perform\<close> is \<open>None\<close>
  where the method does not return.
\<close>

datatype 'a operation =
    SetData "'a node list"
  | InsertChild ref "'a node"
  | InsertBefore ref "'a node"
  | InsertAfter ref "'a node"
  | Delete ref
  | CloneAsChild "'a node" ref
  | CloneAsSiblingBefore "'a node" ref
  | CloneAsSiblingAfter "'a node" ref
  | Transformer "'a node" int
  | ToggleNode fref
  | ExpandLevel int
  | Update
  | Expand fref
  | Collapse fref

fun perform :: "'a service \<Rightarrow> 'a operation \<Rightarrow> 'a service option" where
  "perform s (SetData ns) = Some (setData s ns)"
| "perform s (InsertChild p n) = Some (insertChild s p n)"
| "perform s (InsertBefore b n) = Some (insertBefore s b n)"
| "perform s (InsertAfter b n) = Some (insertAfter s b n)"
| "perform s (Delete n) = Some (delete s n)"
| "perform s (CloneAsChild n p) = Some (snd (cloneAsChild s n p))"
| "perform s (CloneAsSiblingBefore n b) = Some (snd (cloneAsSiblingBefore s n b))"
| "perform s (CloneAsSiblingAfter n b) = Some (snd (cloneAsSiblingAfter s n b))"
| "perform s (Transformer n lvl) = Some (snd (transformer s n lvl))"
| "perform s (ToggleNode f) = toggleNode s f"
| "perform s (ExpandLevel lvl) = Some (expandLevel s lvl)"
| "perform s Update = Some (update s)"
| "perform s (Expand f) = Some (expand s f)"
| "perform s (Collapse f) = Some (collapse s f)"

fun performAll :: "'a service \<Rightarrow> 'a operation list \<Rightarrow> 'a service option" where
  "performAll s [] = Some s"
| "performAll s (op # ops) =
     (case perform s op of None \<Rightarrow> None | Some s' \<Rightarrow> performAll s' ops)"

subsection \<open>The flattened sequence\<close>

text \<open>
  \<open>flattened s\<close>: the flat nodes of \<^verbatim>\<open>treeControl.dataNodes\<close> stand for the nodes
  of the tree, one for each, in depth-first order. \<open>update\<close> leaves the service so.
\<close>

definition flattened :: "'a service \<Rightarrow> bool" where
  "flattened s \<longleftrightarrow> map (\<lambda>n. node (flatNodes s n)) (dataNodes s) = refs (data s)"

text \<open>
  What the proof of that rests on: each entry of the map leads to a flat node that was
  made for its key (\<open>mapConsistent\<close>), and one step of the flattener extends the
  sequence by the flat nodes of \<open>xs\<close> without touching the \<open>node\<close> field of an older
  flat node (\<open>flatStep\<close>).
\<close>

definition mapConsistent :: "'a service \<Rightarrow> bool" where
  "mapConsistent s \<longleftrightarrow>
     (\<forall>r f. nodeMap s r = Some f \<longrightarrow> node (flatNodes s f) = r \<and> f < nextFlat s)"

definition flatStep ::
  "fref list \<times> 'a service \<Rightarrow> fref list \<times> 'a service \<Rightarrow> ref list \<Rightarrow> bool" where
  "flatStep a b xs \<longleftrightarrow>
     mapConsistent (snd b) \<and> (\<forall>n \<in> set (fst b). n < nextFlat (snd b)) \<and>
     nextFlat (snd a) \<le> nextFlat (snd b) \<and>
     (\<forall>g < nextFlat (snd a). node (flatNodes (snd b) g) = node (flatNodes (snd a) g)) \<and>
     map (\<lambda>n. node (flatNodes (snd b) n)) (fst b) =
       map (\<lambda>n. node (flatNodes (snd a) n)) (fst a) @ xs"

definition serviceInv :: "'a service \<Rightarrow> bool" where
  "serviceInv s \<longleftrightarrow>
     flattened s \<and> mapConsistent s \<and> (\<forall>n \<in> set (dataNodes s). n < nextFlat s)"

subsection \<open>The data of the tests\<close>

text \<open>
  A new service, and the service as \<^verbatim>\<open>beforeEach\<close> leaves it: the nested literal
  with TestA, TestB and TestC is three new objects, 0, 1 and 2.
\<close>

definition newService :: "'a service" where
  "newService =
     \<lparr>data = [], nodeMap = Map.empty,
      flatNodes = (\<lambda>f. \<lparr>node = 0, expandable = False, level = 0\<rparr>), nextFlat = 0,
      dataNodes = [], expansion = {}, emitted = [], nextRef = 0\<rparr>"

definition testC :: "string node" where
  "testC = Node 2 ''TestC'' None"

definition testB :: "string node" where
  "testB = Node 1 ''TestB'' (Some [testC])"

definition testA :: "string node" where
  "testA = Node 0 ''TestA'' (Some [testB])"

definition beforeEach :: "string service" where
  "beforeEach = setData newService [testA]"

section \<open>Properties of the queries\<close>

subsection \<open>Edges, objects and paths\<close>

lemma map_snd_edges_from: "map snd (edges_from p (cs::'a node list)) = refs cs"
  and refs_node_edges: "refs_node (P::'a node) = ref P # map snd (edges_node P)"
  by (induction p cs and P rule: edges_from_edges_node.induct) (auto split: option.splits)

lemma find_append: "find P (xs @ ys) = (case find P xs of Some x \<Rightarrow> Some x | None \<Rightarrow> find P ys)"
  by (induction xs) auto

lemma getParent_children_find:
  "getParent_children n p (cs::'a node list) = map_option fst (find (\<lambda>e. snd e = n) (edges_from p cs))"
  and getParent'_find: "getParent' n (P::'a node) = map_option fst (find (\<lambda>e. snd e = n) (edges_node P))"
  by (induction p cs and P rule: edges_from_edges_node.induct)
     (auto split: option.splits simp: find_append)

lemma getParent_find: "getParent d n = map_option fst (find (\<lambda>e. snd e = n) (edges d))"
  by (induction d) (auto simp: getParent'_find find_append split: option.splits)

lemma set_refs: "set (refs d) = ref ` set d \<union> snd ` set (edges d)"
  by (induction d) (auto simp: refs_node_edges)

lemma distinct_refs_edges:
  "distinct (refs d) \<Longrightarrow> distinct (map snd (edges d)) \<and> ref ` set d \<inter> snd ` set (edges d) = {}"
proof (induction d)
  case Nil then show ?case by simp
next
  case (Cons c rest)
  then show ?case
    by (simp add: refs_node_edges set_refs image_Un Int_Un_distrib Int_Un_distrib2) blast
qed

lemma refs_node_objects: "refs_node (P::'a node) = map ref (objects_node P)"
  and refs_objects: "refs (cs::'a node list) = map ref (objects cs)"
  by (induction P and cs rule: objects_node_objects.induct) (auto split: option.splits)

lemma set_edges_from: "set (edges_from p cs) = (\<lambda>c. (p, ref c)) ` set cs \<union> set (edges cs)"
  by (induction cs) auto

lemma edges_node_iff:
  "(p, n) \<in> set (edges_node (P::'a node)) \<longleftrightarrow>
     (\<exists>Q \<in> set (objects_node P). \<exists>ch. ref Q = p \<and> children Q = Some ch \<and> n \<in> ref ` set ch)"
  and edges_iff:
  "(p, n) \<in> set (edges (cs::'a node list)) \<longleftrightarrow>
     (\<exists>Q \<in> set (objects cs). \<exists>ch. ref Q = p \<and> children Q = Some ch \<and> n \<in> ref ` set ch)"
proof (induction P and cs rule: objects_node_objects.induct)
  case (1 r x cs)
  show ?case
  proof (cases cs)
    case None then show ?thesis by simp
  next
    case (Some ch)
    with 1 show ?thesis by (simp add: set_edges_from) blast
  qed
next
  case 2 show ?case by simp
next
  case (3 c rest)
  then show ?case by (simp add: bex_Un) 
qed

lemma paths_nonempty: "[] \<notin> set (paths_node (P::'a node))"
  and paths_nonempty': "[] \<notin> set (paths (cs::'a node list))"
  by (induction P and cs rule: paths_node_paths.induct) (auto split: option.splits)

lemma last_paths_node: "map last (paths_node (P::'a node)) = refs_node P"
  and last_paths: "map last (paths (cs::'a node list)) = refs cs"
proof (induction P and cs rule: paths_node_paths.induct)
  case (1 r x cs)
  have *: "map (last \<circ> (#) r) (paths ch) = map last (paths ch)" for ch :: "'a node list"
    using paths_nonempty'[of ch] by (intro map_cong) auto
  show ?case
  proof (cases cs)
    case None then show ?thesis by simp
  next
    case (Some ch)
    with 1[OF Some] *[of ch] show ?thesis by simp
  qed
qed auto

lemma hd_paths_node: "q \<in> set (paths_node (P::'a node)) \<Longrightarrow> hd q = ref P"
  and hd_paths: "q \<in> set (paths (cs::'a node list)) \<Longrightarrow> hd q \<in> ref ` set cs"
  by (induction P and cs rule: paths_node_paths.induct) (auto split: option.splits)

lemma single_paths_node: "[n] \<in> set (paths_node (P::'a node)) \<Longrightarrow> n = ref P"
  and single_paths: "[n] \<in> set (paths (cs::'a node list)) \<Longrightarrow> n \<in> ref ` set cs"
  using hd_paths_node[of "[n]" P] hd_paths[of "[n]" cs] by auto

lemma paths_snoc_node:
  "xs @ [p, n] \<in> set (paths_node (P::'a node)) \<Longrightarrow>
     (p, n) \<in> set (edges_node P) \<and> xs @ [p] \<in> set (paths_node P)"
  and paths_snoc:
  "xs @ [p, n] \<in> set (paths (cs::'a node list)) \<Longrightarrow>
     (p, n) \<in> set (edges cs) \<and> xs @ [p] \<in> set (paths cs)"
proof (induction P and cs arbitrary: xs and xs rule: paths_node_paths.induct)
  case (1 r x cs)
  from 1(2) obtain ch q where cs: "cs = Some ch" and q: "q \<in> set (paths ch)" and eq: "xs @ [p, n] = r # q"
    by (auto split: option.splits)
  show ?case
  proof (cases xs)
    case Nil
    with eq have "q = [n]" "p = r" by auto
    with q single_paths[of n ch] cs Nil show ?thesis by (auto simp: set_edges_from)
  next
    case (Cons a ys)
    with eq have "q = ys @ [p, n]" "a = r" by auto
    with q 1(1)[OF cs, of ys] cs Cons show ?thesis by (auto simp: set_edges_from)
  qed
next
  case 2 then show ?case by simp
next
  case (3 c rest)
  then show ?case by auto
qed

lemma find_unique:
  "distinct (map snd es) \<Longrightarrow> (p, n) \<in> set es \<Longrightarrow> find (\<lambda>e. snd e = n) es = Some (p, n)"
  by (induction es) (auto simp: rev_image_eqI)

lemma getParent_edge:
  "distinct (refs d) \<Longrightarrow> (p, n) \<in> set (edges d) \<Longrightarrow> getParent d n = Some p"
  by (simp add: getParent_find find_unique distinct_refs_edges)

lemma find_snd_None: "find (\<lambda>e. snd e = n) es = None \<longleftrightarrow> n \<notin> snd ` set es"
  by (induction es) auto

lemma find_snd_Some: "find (\<lambda>e. snd e = n) es = Some e \<Longrightarrow> e \<in> set es \<and> snd e = n"
  by (induction es) (auto split: if_splits)

lemma getParent_None_iff: "getParent d n = None \<longleftrightarrow> n \<notin> snd ` set (edges d)"
  by (simp add: getParent_find find_snd_None)

lemma getParent_Some_edge: "getParent d n = Some p \<Longrightarrow> (p, n) \<in> set (edges d)"
  by (auto simp: getParent_find dest!: find_snd_Some)

lemma getParent_absent: "n \<notin> set (refs d) \<Longrightarrow> getParent d n = None"
  by (simp add: getParent_None_iff set_refs)

lemma getParent_root:
  "distinct (refs d) \<Longrightarrow> n \<in> ref ` set d \<Longrightarrow> getParent d n = None"
  using distinct_refs_edges[of d] by (auto simp: getParent_None_iff)

lemma loop_None: "getNodePath_loop d acc None = Some acc"
  by (simp add: getNodePath_loop.simps)

lemma loop_Some:
  "getNodePath_loop d acc (Some p) = getNodePath_loop d (acc @ [p]) (getParent d p)"
  by (subst getNodePath_loop.simps) simp

lemma loop_path:
  "distinct (refs d) \<Longrightarrow> xs @ [n] \<in> set (paths d) \<Longrightarrow>
   getNodePath_loop d acc (getParent d n) = Some (acc @ rev xs)"
proof (induction xs arbitrary: n acc rule: rev_induct)
  case Nil
  then show ?case by (simp add: getParent_root single_paths loop_None)
next
  case (snoc p ys)
  from snoc.prems(2) have "ys @ [p, n] \<in> set (paths d)" by simp
  from paths_snoc[OF this] have e: "(p, n) \<in> set (edges d)" and q: "ys @ [p] \<in> set (paths d)"
    by auto
  from getParent_edge[OF snoc.prems(1) e] snoc.IH[OF snoc.prems(1) q, of "acc @ [p]"]
  show ?case by (simp add: loop_Some)
qed

lemma getNodePath_path:
  "distinct (refs d) \<Longrightarrow> q \<in> set (paths d) \<Longrightarrow> getNodePath d (last q) = Some q"
proof -
  assume d: "distinct (refs d)" and q: "q \<in> set (paths d)"
  with paths_nonempty'[of d] have "q \<noteq> []" by auto
  then obtain xs n where "q = xs @ [n]" by (metis rev_exhaust)
  with loop_path[OF d, of xs n "[n]"] q show ?thesis by (simp add: getNodePath_def)
qed

lemma path_steps:
  "q \<in> set (paths d) \<Longrightarrow> Suc i < length q \<Longrightarrow> (q ! i, q ! Suc i) \<in> set (edges d)"
proof (induction q arbitrary: i rule: rev_induct)
  case Nil then show ?case by simp
next
  case (snoc n ys)
  show ?case
  proof (cases ys rule: rev_cases)
    case Nil with snoc.prems show ?thesis by simp
  next
    case (snoc zs p)
    with snoc.prems(1) have "zs @ [p, n] \<in> set (paths d)" by simp
    from paths_snoc[OF this] have e: "(p, n) \<in> set (edges d)" and q: "ys \<in> set (paths d)"
      using snoc by auto
    show ?thesis
    proof (cases "Suc i < length ys")
      case True
      with snoc.IH[OF q True] show ?thesis by (simp add: nth_append)
    next
      case False
      with snoc.prems(2) have "i = length zs" using snoc by simp
      with e snoc show ?thesis by (simp add: nth_append)
    qed
  qed
qed

lemma getNodePath_absent: "n \<notin> set (refs d) \<Longrightarrow> getNodePath d n = Some [n]"
  by (simp add: getNodePath_def getParent_absent loop_None)

lemma getNodePath_total: "distinct (refs d) \<Longrightarrow> \<exists>q. getNodePath d n = Some q \<and> last q = n \<and> q \<noteq> []"
proof (cases "n \<in> set (refs d)")
  case False then show ?thesis by (simp add: getNodePath_absent)
next
  case True
  assume d: "distinct (refs d)"
  from True obtain q where "q \<in> set (paths d)" "last q = n"
    unfolding last_paths[symmetric] by auto
  with getNodePath_path[OF d this(1)] paths_nonempty'[of d] show ?thesis by auto
qed

lemma parentOf_edges: "parentOf d p n \<longleftrightarrow> (p, n) \<in> set (edges d)"
  by (auto simp: parentOf_def edges_iff split: option.splits)

subsection \<open>The data of the tests\<close>

lemma fixture_refs: "refs [testA] = [0, 1, 2]"
  by (simp add: testA_def testB_def testC_def)

lemma fixture_path: "getNodePath [testA] 2 = Some [0, 1, 2]"
  by (simp add: getNodePath_def loop_Some loop_None testA_def testB_def testC_def)

subsection \<open>getParent\<close>

text \<open>
  Claim C5. In a tree (every object occurs once), \<open>getParent\<close> of a node that some
  object of the forest has in its \<^verbatim>\<open>children\<close> array returns that object; since the
  result is one value, no second object has the node among its children. For a node that
  is nowhere in the forest, and for a root-level node of a tree, \<open>getParent\<close> returns
  null (\<open>None\<close>).
\<close>

theorem getParent_direct_parent:
  "(distinct (refs d) \<and> parentOf d p n \<longrightarrow> getParent d n = Some p) \<and>
   (n \<notin> set (refs d) \<longrightarrow> getParent d n = None) \<and>
   (distinct (refs d) \<and> n \<in> ref ` set d \<longrightarrow> getParent d n = None)"
proof (intro conjI impI)
  assume "distinct (refs d) \<and> parentOf d p n"
  then have "distinct (refs d)" and "(p, n) \<in> set (edges d)" by (simp_all add: parentOf_edges)
  then show "getParent d n = Some p" by (rule getParent_edge)
next
  assume "n \<notin> set (refs d)"
  then show "getParent d n = None" by (rule getParent_absent)
next
  assume "distinct (refs d) \<and> n \<in> ref ` set d"
  then show "getParent d n = None" by (simp add: getParent_root)
qed

theorem getParent_direct_parent_witness:
  "distinct (refs [testA]) \<and> parentOf [testA] 1 2 \<and> getParent [testA] 2 = Some 1 \<and>
   7 \<notin> set (refs [testA]) \<and> getParent [testA] 7 = None \<and>
   0 \<in> ref ` set [testA] \<and> getParent [testA] 0 = None"
proof -
  have h1: "distinct (refs [testA])" unfolding fixture_refs by simp
  have h2: "parentOf [testA] 1 2" by (simp add: parentOf_def testA_def testB_def testC_def)
  have h3: "7 \<notin> set (refs [testA])" unfolding fixture_refs by simp
  have h4: "0 \<in> ref ` set [testA]" by (simp add: testA_def)
  from h1 h2 h3 h4 getParent_direct_parent[of "[testA]" 1 2]
    getParent_direct_parent[of "[testA]" 1 7] getParent_direct_parent[of "[testA]" 1 0]
  show ?thesis by blast
qed

subsection \<open>getNodePath\<close>

text \<open>
  Claim C6. For a node of a tree, \<open>getNodePath\<close> returns: its path \<open>q\<close> ends in the
  node, starts with a root-level entry of which \<open>getParent\<close> is null, and each element
  is the parent of the next, both by the structure (\<open>parentOf\<close>) and by \<open>getParent\<close>.
\<close>

theorem getNodePath_root_first:
  "distinct (refs d) \<and> n \<in> set (refs d) \<longrightarrow>
     (\<exists>q. getNodePath d n = Some q \<and> q \<noteq> [] \<and> last q = n \<and>
          hd q \<in> ref ` set d \<and> getParent d (hd q) = None \<and>
          (\<forall>i. Suc i < length q \<longrightarrow>
             parentOf d (q ! i) (q ! Suc i) \<and> getParent d (q ! Suc i) = Some (q ! i)))"
proof (intro impI, elim conjE)
  assume d: "distinct (refs d)" and n: "n \<in> set (refs d)"
  from n obtain q where q: "q \<in> set (paths d)" and l: "last q = n"
    unfolding last_paths[symmetric] by auto
  from q paths_nonempty'[of d] have ne: "q \<noteq> []" by auto
  from getNodePath_path[OF d q] l have g: "getNodePath d n = Some q" by simp
  from hd_paths[OF q] have r: "hd q \<in> ref ` set d" .
  have "parentOf d (q ! i) (q ! Suc i) \<and> getParent d (q ! Suc i) = Some (q ! i)"
    if "Suc i < length q" for i
    using path_steps[OF q that] getParent_edge[OF d] by (simp add: parentOf_edges)
  with g ne l r getParent_root[OF d r] show "\<exists>q. getNodePath d n = Some q \<and> q \<noteq> [] \<and> last q = n \<and>
          hd q \<in> ref ` set d \<and> getParent d (hd q) = None \<and>
          (\<forall>i. Suc i < length q \<longrightarrow>
             parentOf d (q ! i) (q ! Suc i) \<and> getParent d (q ! Suc i) = Some (q ! i))"
    by blast
qed

theorem getNodePath_root_first_witness:
  "distinct (refs [testA]) \<and> 2 \<in> set (refs [testA]) \<and>
   (\<exists>q. getNodePath [testA] 2 = Some q \<and> q = [0, 1, 2] \<and> last q = 2 \<and>
        hd q \<in> ref ` set [testA] \<and> getParent [testA] (hd q) = None \<and>
        parentOf [testA] (q ! 0) (q ! 1) \<and> parentOf [testA] (q ! 1) (q ! 2))"
proof -
  have h: "distinct (refs [testA]) \<and> 2 \<in> set (refs [testA])" unfolding fixture_refs by simp
  with getNodePath_root_first[of "[testA]" 2] fixture_path show ?thesis
    by auto
qed

text \<open>
  Claim C10. For a node that is nowhere in the forest, \<open>getNodePath\<close> returns, and
  what it returns is the one-element sequence of the node itself.
\<close>

theorem getNodePath_of_absent_node:
  "n \<notin> set (refs d) \<longrightarrow> getNodePath d n = Some [n]"
proof
  assume "n \<notin> set (refs d)"
  then have "getParent d n = None" by (rule getParent_absent)
  then have "getNodePath_loop d [n] (getParent d n) = Some [n]" by (simp add: loop_None)
  then show "getNodePath d n = Some [n]" by (simp add: getNodePath_def)
qed

theorem getNodePath_of_absent_node_witness:
  "7 \<notin> set (refs [testA]) \<and> getNodePath [testA] 7 = Some [7]"
proof -
  have h: "7 \<notin> set (refs [testA])" unfolding fixture_refs by simp
  with getNodePath_of_absent_node[of 7 "[testA]"] show ?thesis by blast
qed

subsection \<open>isSibling\<close>

text \<open>
  Claim C7. \<open>isSibling\<close> is true exactly when \<open>getParent\<close> gives the same result
  for both nodes; so it is true for two root-level nodes of a tree, and for two nodes
  neither of which is in the forest.
\<close>

theorem isSibling_same_parent:
  "(isSibling d a b \<longleftrightarrow> getParent d a = getParent d b) \<and>
   (distinct (refs d) \<and> a \<in> ref ` set d \<and> b \<in> ref ` set d \<longrightarrow> isSibling d a b) \<and>
   (a \<notin> set (refs d) \<and> b \<notin> set (refs d) \<longrightarrow> isSibling d a b)"
proof (intro conjI impI)
  show "isSibling d a b \<longleftrightarrow> getParent d a = getParent d b" by (simp add: isSibling_def)
next
  assume "distinct (refs d) \<and> a \<in> ref ` set d \<and> b \<in> ref ` set d"
  then have "getParent d a = None" and "getParent d b = None" by (simp_all add: getParent_root)
  then show "isSibling d a b" by (simp add: isSibling_def)
next
  assume "a \<notin> set (refs d) \<and> b \<notin> set (refs d)"
  then have "getParent d a = None" and "getParent d b = None" by (simp_all add: getParent_absent)
  then show "isSibling d a b" by (simp add: isSibling_def)
qed

theorem isSibling_same_parent_witness:
  "7 \<notin> set (refs [testA]) \<and> 8 \<notin> set (refs [testA]) \<and> isSibling [testA] 7 8 \<and>
   distinct (refs [testA]) \<and> 0 \<in> ref ` set [testA] \<and> isSibling [testA] 0 0 \<and>
   \<not> isSibling [testA] 1 2"
proof -
  have h: "7 \<notin> set (refs [testA]) \<and> 8 \<notin> set (refs [testA]) \<and> distinct (refs [testA])"
    unfolding fixture_refs by simp
  have r: "0 \<in> ref ` set [testA]" by (simp add: testA_def)
  have p: "getParent [testA] 1 \<noteq> getParent [testA] 2" by (simp add: testA_def testB_def testC_def)
  from h r p isSibling_same_parent[of "[testA]" 7 8] isSibling_same_parent[of "[testA]" 0 0]
    isSibling_same_parent[of "[testA]" 1 2]
  show ?thesis by blast
qed

section \<open>Properties of the mutations\<close>

subsection \<open>update changes neither the data nor the expansion\<close>

lemma transformer_frame:
  "data (snd (transformer s n l)) = data s"
  "expansion (snd (transformer s n l)) = expansion s"
  "nextRef (snd (transformer s n l)) = nextRef s"
  "emitted (snd (transformer s n l)) = emitted s"
  by (simp_all add: transformer_def Let_def split: option.splits)

lemma flattenNode_frame:
  "data (snd (flattenNode (n::'a node) l acc)) = data (snd acc) \<and>
   expansion (snd (flattenNode n l acc)) = expansion (snd acc) \<and>
   nextRef (snd (flattenNode n l acc)) = nextRef (snd acc) \<and>
   emitted (snd (flattenNode n l acc)) = emitted (snd acc)"
  and flattenChildren_frame:
  "data (snd (flattenChildren (ns::'a node list) l acc)) = data (snd acc) \<and>
   expansion (snd (flattenChildren ns l acc)) = expansion (snd acc) \<and>
   nextRef (snd (flattenChildren ns l acc)) = nextRef (snd acc) \<and>
   emitted (snd (flattenChildren ns l acc)) = emitted (snd acc)"
proof (induction n l acc and ns l acc rule: flattenNode_flattenChildren.induct)
  case (1 r x cs lvl resultNodes s)
  obtain f s' where t: "transformer s (Node r x cs) lvl = (f, s')" by (cases "transformer s (Node r x cs) lvl")
  from t transformer_frame[of s "Node r x cs" lvl]
  have fr: "data s' = data s" "expansion s' = expansion s" "nextRef s' = nextRef s" "emitted s' = emitted s"
    by simp_all
  show ?case
  proof (cases "expandable (flatNodes s' f)")
    case False with t fr show ?thesis by simp
  next
    case True
    show ?thesis
    proof (cases cs)
      case None with t fr True show ?thesis by simp
    next
      case (Some ch)
      from 1[OF t[symmetric] refl refl True Some] t fr True Some show ?thesis by simp
    qed
  qed
next
  case 2 show ?case by simp
next
  case 3 then show ?case by simp
qed

lemma flattenNodes_frame:
  "data (snd (flattenNodes ns s)) = data s \<and>
   expansion (snd (flattenNodes ns s)) = expansion s \<and>
   nextRef (snd (flattenNodes ns s)) = nextRef s \<and>
   emitted (snd (flattenNodes ns s)) = emitted s"
proof -
  have "data (snd (foldl (\<lambda>acc n. flattenNode n 0 acc) acc ns)) = data (snd acc) \<and>
   expansion (snd (foldl (\<lambda>acc n. flattenNode n 0 acc) acc ns)) = expansion (snd acc) \<and>
   nextRef (snd (foldl (\<lambda>acc n. flattenNode n 0 acc) acc ns)) = nextRef (snd acc) \<and>
   emitted (snd (foldl (\<lambda>acc n. flattenNode n 0 acc) acc ns)) = emitted (snd acc)" for acc
    by (induction ns arbitrary: acc) (simp_all add: flattenNode_frame)
  from this[of "([], s)"] show ?thesis by (simp add: flattenNodes_def)
qed

lemma update_frame:
  "data (update s) = data s" "expansion (update s) = expansion s" "nextRef (update s) = nextRef s"
  "emitted (update s) = emitted s @ [data s]"
  using flattenNodes_frame[of "data s" s]
  by (simp_all add: update_def split_beta)

subsection \<open>The service of the tests\<close>

lemma beforeEach_state:
  "beforeEach =
     \<lparr>data = [testA], nodeMap = [0 \<mapsto> 0, 1 \<mapsto> 1, 2 \<mapsto> 2],
      flatNodes = (\<lambda>f. \<lparr>node = 0, expandable = False, level = 0\<rparr>)
        (0 := \<lparr>node = 0, expandable = True, level = 0\<rparr>,
         1 := \<lparr>node = 1, expandable = True, level = 1\<rparr>,
         2 := \<lparr>node = 2, expandable = False, level = 2\<rparr>),
      nextFlat = 3, dataNodes = [0, 1, 2], expansion = {}, emitted = [[testA]], nextRef = 0\<rparr>"
  by (simp add: beforeEach_def setData_def update_def flattenNodes_def transformer_def
        newService_def testA_def testB_def testC_def nonEmptyChildren_def Let_def eval_nat_numeral)

lemma beforeEach_fields:
  "data beforeEach = [testA]" "dataNodes beforeEach = [0, 1, 2]" "expansion beforeEach = {}"
  "nextRef beforeEach = 0" "nextFlat beforeEach = 3"
  "node (flatNodes beforeEach 0) = 0" "node (flatNodes beforeEach 1) = 1"
  "node (flatNodes beforeEach 2) = 2"
  "nodeMap beforeEach 2 = Some 2" "nodeMap beforeEach 7 = None"
  by (simp_all add: beforeEach_state)

subsection \<open>Insertion beside a node that is not in the tree\<close>

lemma indexOf_absent: "n \<notin> ref ` set xs \<Longrightarrow> indexOf xs n = -1"
  by (induction xs) (auto simp: Let_def)

lemma indexOf_nonneg: "n \<in> ref ` set xs \<Longrightarrow> 0 \<le> indexOf xs n"
  by (induction xs) (auto simp: Let_def)

lemma roots_subset_refs: "ref ` set d \<subseteq> set (refs d)"
  by (auto simp: set_refs)

lemma insertSibling_absent:
  assumes "n \<notin> set (refs (data s))"
  shows "data (insertSibling s n new i) = splice_array (data s) (i - 1) 0 [new]"
proof -
  from assms have "getParent (data s) n = None" by (rule getParent_absent)
  moreover from assms roots_subset_refs[of "data s"] have "indexOf (data s) n = -1"
    by (intro indexOf_absent) auto
  ultimately show ?thesis
    by (simp add: insertSibling_def parentChildren_def update_frame)
qed

text \<open>
  Claim C2, as the code has it. For a sibling reference that is nowhere in the tree,
  \<^verbatim>\<open>getParent\<close> is null and \<^verbatim>\<open>indexOf\<close> is -1, so \<^verbatim>\<open>insertBefore\<close> splices at
  -1 and \<^verbatim>\<open>insertAfter\<close> at 0: the new node enters the root collection, before its
  last element (or as its only element) and at its front. The entries the root
  collection had, and with them every children sequence, stay as they were.
\<close>

theorem insert_at_absent_sibling:
  "n \<notin> set (refs (data s)) \<longrightarrow>
     data (insertBefore s n new) =
       take (length (data s) - 1) (data s) @ [new] @ drop (length (data s) - 1) (data s) \<and>
     data (insertAfter s n new) = new # data s"
  by (auto simp: insertBefore_def insertAfter_def insertSibling_absent splice_array_def spliceStart_def
        nat_diff_distrib' max_def Let_def)

theorem insert_at_absent_sibling_witness:
  "9 \<notin> set (refs (data beforeEach)) \<and>
   data (insertBefore beforeEach 9 (Node 3 ''TestD'' None)) = [Node 3 ''TestD'' None, testA] \<and>
   data (insertAfter beforeEach 9 (Node 3 ''TestD'' None)) = [Node 3 ''TestD'' None, testA] \<and>
   9 \<notin> set (refs (data (beforeEach\<lparr>data := [testA, Node 5 ''TestE'' None]\<rparr>))) \<and>
   data (insertBefore (beforeEach\<lparr>data := [testA, Node 5 ''TestE'' None]\<rparr>) 9
           (Node 3 ''TestD'' None)) =
     [testA, Node 3 ''TestD'' None, Node 5 ''TestE'' None]"
proof -
  have h: "9 \<notin> set (refs (data beforeEach))" unfolding beforeEach_fields fixture_refs by simp
  have h': "9 \<notin> set (refs (data (beforeEach\<lparr>data := [testA, Node 5 ''TestE'' None]\<rparr>)))"
    using fixture_refs by simp
  from h insert_at_absent_sibling[of 9 beforeEach "Node 3 ''TestD'' None"]
  have a: "data (insertBefore beforeEach 9 (Node 3 ''TestD'' None)) = [Node 3 ''TestD'' None, testA] \<and>
   data (insertAfter beforeEach 9 (Node 3 ''TestD'' None)) = [Node 3 ''TestD'' None, testA]"
    by (simp add: beforeEach_fields)
  from h' insert_at_absent_sibling[of 9 "beforeEach\<lparr>data := [testA, Node 5 ''TestE'' None]\<rparr>"
      "Node 3 ''TestD'' None"]
  have b: "data (insertBefore (beforeEach\<lparr>data := [testA, Node 5 ''TestE'' None]\<rparr>) 9
           (Node 3 ''TestD'' None)) =
     [testA, Node 3 ''TestD'' None, Node 5 ''TestE'' None]"
    by simp
  from h h' a b show ?thesis by blast
qed

text \<open>
  Claim C2 as stated does not hold: on the data of the tests, with a sibling reference
  that is not in the tree, both insertions change the root collection.
\<close>

theorem insert_at_absent_sibling_changes_root:
  "9 \<notin> set (refs (data beforeEach)) \<and>
   data (insertBefore beforeEach 9 (Node 3 ''TestD'' None)) \<noteq> data beforeEach \<and>
   data (insertAfter beforeEach 9 (Node 3 ''TestD'' None)) \<noteq> data beforeEach"
proof -
  have h: "9 \<notin> set (refs (data beforeEach))" unfolding beforeEach_fields fixture_refs by simp
  then show ?thesis
    by (simp add: insertBefore_def insertAfter_def insertSibling_absent beforeEach_fields
          splice_array_def spliceStart_def)
qed

subsection \<open>delete\<close>

lemma indexOf_found: "indexOf xs n > -1 \<longleftrightarrow> n \<in> ref ` set xs"
proof (cases "n \<in> ref ` set xs")
  case True
  with indexOf_nonneg[OF True] show ?thesis by simp
next
  case False
  with indexOf_absent[OF False] show ?thesis by simp
qed

lemma ref_in_refs_node [simp]: "ref c \<in> set (refs_node c)"
  by (cases c) simp

lemma delete_absent:
  "n \<notin> set (refs (ns::'a node list)) \<Longrightarrow> delete' ns n = ns"
  "n \<notin> set (refs (ns::'a node list)) \<Longrightarrow> delete_each ns n = ns"
  "n \<notin> set (refs_node (c::'a node)) \<Longrightarrow> delete_in c n = c"
proof (induction ns n and ns n and c n rule: delete'_delete_each_delete_in.induct)
  case (1 nodes node)
  from 1(2) roots_subset_refs[of nodes] have "indexOf nodes node = -1"
    by (intro indexOf_absent) auto
  with 1 show ?case by simp
next
  case 2 show ?case by simp
next
  case (3 c rest node)
  then show ?case by auto
next
  case (4 r x cs node)
  then show ?case by (auto split: option.splits)
qed

lemma remove_first_absent:
  "n \<notin> set (refs (ns::'a node list)) \<Longrightarrow> remove_first_dfs n ns = None"
  "n \<notin> set (refs_node (c::'a node)) \<Longrightarrow> remove_first_below n c = None"
  by (induction n ns and n c rule: remove_first_dfs_remove_first_below.induct)
     (auto split: option.splits)

lemma splice_delete_Cons:
  "0 \<le> i \<Longrightarrow> splice_array (c # rest) (i + 1) (Suc 0) [] = c # splice_array rest i (Suc 0) []"
  by (simp add: splice_array_def spliceStart_def Let_def nat_add_distrib min_def)

lemma splice_delete_0: "splice_array (c # rest) 0 (Suc 0) [] = rest"
  by (simp add: splice_array_def spliceStart_def)

lemma remove_first_root:
  "distinct (refs ns) \<Longrightarrow> n \<in> ref ` set ns \<Longrightarrow>
   remove_first_dfs n ns = Some (splice_array ns (indexOf ns n) 1 [])"
proof (induction ns)
  case Nil then show ?case by simp
next
  case (Cons c rest)
  show ?case
  proof (cases "ref c = n")
    case True then show ?thesis by (simp add: splice_delete_0)
  next
    case False
    with Cons.prems have in_rest: "n \<in> ref ` set rest" by auto
    with roots_subset_refs[of rest] Cons.prems(1) have "n \<notin> set (refs_node c)" by auto
    then have b: "remove_first_below n c = None" by (rule remove_first_absent)
    from Cons.prems(1) have "distinct (refs rest)" by simp
    from Cons.IH[OF this in_rest] have ih: "remove_first_dfs n rest = Some (splice_array rest (indexOf rest n) 1 [])" .
    from in_rest have "0 \<le> indexOf rest n" by (rule indexOf_nonneg)
    with False b ih show ?thesis
      by (auto simp: Let_def splice_delete_Cons)
  qed
qed

lemma delete_refines:
  "distinct (refs (ns::'a node list)) \<Longrightarrow>
     delete' ns n = (case remove_first_dfs n ns of Some ns' \<Rightarrow> ns' | None \<Rightarrow> ns)"
  "distinct (refs (ns::'a node list)) \<Longrightarrow> n \<notin> ref ` set ns \<Longrightarrow>
     delete_each ns n = (case remove_first_dfs n ns of Some ns' \<Rightarrow> ns' | None \<Rightarrow> ns)"
  "distinct (refs_node (c::'a node)) \<Longrightarrow>
     delete_in c n = (case remove_first_below n c of Some c' \<Rightarrow> c' | None \<Rightarrow> c)"
proof (induction ns n and ns n and c n rule: delete'_delete_each_delete_in.induct)
  case (1 nodes node)
  show ?case
  proof (cases "node \<in> ref ` set nodes")
    case True
    with remove_first_root[OF 1(2) True] show ?thesis by (simp add: indexOf_found)
  next
    case False
    then have "\<not> indexOf nodes node > -1" by (simp add: indexOf_found)
    with 1(1)[OF refl _ 1(2) False] False show ?thesis by simp
  qed
next
  case 2 show ?case by simp
next
  case (3 c rest node)
  from 3(3) have dc: "distinct (refs_node c)" and dr: "distinct (refs rest)"
    and disj: "set (refs_node c) \<inter> set (refs rest) = {}" by auto
  from 3(4) have nc: "ref c \<noteq> node" and nr: "node \<notin> ref ` set rest" by auto
  show ?case
  proof (cases "remove_first_below node c")
    case None
    with 3(1)[OF dc] 3(2)[OF dr nr] nc show ?thesis by (simp split: option.splits)
  next
    case (Some c')
    then have "node \<in> set (refs_node c)" using remove_first_absent(2)[of node c] by auto
    with disj have "node \<notin> set (refs rest)" by auto
    then have "delete_each rest node = rest" by (rule delete_absent)
    with 3(1)[OF dc] Some nc show ?thesis by simp
  qed
next
  case (4 r x cs node)
  show ?case
  proof (cases cs)
    case None then show ?thesis by simp
  next
    case (Some ch)
    show ?thesis
    proof (cases "length ch > 0")
      case True
      from 4(2) Some have "distinct (refs ch)" by simp
      from 4(1)[OF Some True this] Some True show ?thesis by (simp split: option.splits)
    next
      case False with Some show ?thesis by simp
    qed
  qed
qed

lemma objects_refs_subset:
  "N \<in> set (objects_node (P::'a node)) \<Longrightarrow> set (refs_node N) \<subseteq> set (refs_node P)"
  "N \<in> set (objects (ns::'a node list)) \<Longrightarrow> set (refs_node N) \<subseteq> set (refs ns)"
  by (induction P and ns rule: objects_node_objects.induct) (auto split: option.splits)

lemma filter_disjoint: "set xs \<inter> A = {} \<Longrightarrow> filter (\<lambda>r. r \<notin> A) xs = xs"
  by (induction xs) auto

lemma filter_all_in: "set xs \<subseteq> A \<Longrightarrow> filter (\<lambda>r. r \<notin> A) xs = []"
  by (induction xs) auto

lemma remove_first_refs:
  "distinct (refs (ns::'a node list)) \<Longrightarrow> remove_first_dfs n ns = Some ns' \<Longrightarrow>
     \<exists>N \<in> set (objects ns). ref N = n \<and>
        refs ns' = filter (\<lambda>r. r \<notin> set (refs_node N)) (refs ns)"
  "distinct (refs_node (c::'a node)) \<Longrightarrow> remove_first_below n c = Some c' \<Longrightarrow>
     \<exists>N \<in> set (objects_node c). ref N = n \<and>
        refs_node c' = filter (\<lambda>r. r \<notin> set (refs_node N)) (refs_node c)"
proof (induction n ns and n c arbitrary: ns' and c' rule: remove_first_dfs_remove_first_below.induct)
  case (1 n)
  then show ?case by simp
next
  case (2 n c rest)
  from 2(3) have dc: "distinct (refs_node c)" and dr: "distinct (refs rest)"
    and disj: "set (refs_node c) \<inter> set (refs rest) = {}" by auto
  show ?case
  proof (cases "ref c = n")
    case True
    with 2(4) have "ns' = rest" by simp
    moreover have "c \<in> set (objects (c # rest))" by (cases c) simp
    moreover from disj have "filter (\<lambda>r. r \<notin> set (refs_node c)) (refs rest) = refs rest"
      by (intro filter_disjoint) auto
    ultimately show ?thesis using True by (intro bexI[of _ c]) (simp_all add: filter_all_in)
  next
    case False
    show ?thesis
    proof (cases "remove_first_below n c")
      case (Some c1)
      with False 2(4) have ns': "ns' = c1 # rest" by simp
      from 2(1)[OF False dc Some] obtain N where N: "N \<in> set (objects_node c)" "ref N = n"
        "refs_node c1 = filter (\<lambda>r. r \<notin> set (refs_node N)) (refs_node c)" by blast
      from objects_refs_subset(1)[OF N(1)] disj
      have "filter (\<lambda>r. r \<notin> set (refs_node N)) (refs rest) = refs rest"
        by (intro filter_disjoint) auto
      with N ns' show ?thesis by (intro bexI[of _ N]) simp_all
    next
      case None
      with False 2(4) obtain rest' where r: "remove_first_dfs n rest = Some rest'" "ns' = c # rest'"
        by auto
      from 2(2)[OF False None dr r(1)] obtain N where N: "N \<in> set (objects rest)" "ref N = n"
        "refs rest' = filter (\<lambda>r. r \<notin> set (refs_node N)) (refs rest)" by blast
      from objects_refs_subset(2)[OF N(1)] disj
      have "filter (\<lambda>r. r \<notin> set (refs_node N)) (refs_node c) = refs_node c"
        by (intro filter_disjoint) auto
      with N r show ?thesis by (intro bexI[of _ N]) simp_all
    qed
  qed
next
  case (3 n r x cs)
  from 3(3) obtain ch ch' where ch: "cs = Some ch" "remove_first_dfs n ch = Some ch'"
    "c' = Node r x (Some ch')" by (auto split: option.splits)
  from 3(2) ch have d: "distinct (refs ch)" and r: "r \<notin> set (refs ch)" by auto
  from 3(1)[OF ch(1) d ch(2)] obtain N where N: "N \<in> set (objects ch)" "ref N = n"
    "refs ch' = filter (\<lambda>r. r \<notin> set (refs_node N)) (refs ch)" by blast
  from objects_refs_subset(2)[OF N(1)] r have "r \<notin> set (refs_node N)" by auto
  with N ch show ?case by (intro bexI[of _ N]) simp_all
qed

lemma remove_first_present:
  "n \<in> set (refs (ns::'a node list)) \<Longrightarrow> remove_first_dfs n ns \<noteq> None"
  "n \<in> set (refs_node (c::'a node)) \<Longrightarrow> ref c \<noteq> n \<Longrightarrow> remove_first_below n c \<noteq> None"
  by (induction n ns and n c rule: remove_first_dfs_remove_first_below.induct)
     (auto split: option.splits)

text \<open>
  Claim C4. In a tree (every object occurs once), \<open>delete\<close> leaves the data that the
  depth-first removal of the first occurrence leaves. If the node is in the tree, what
  is gone afterwards are the node and the objects below it, and every other object is
  still there, in the same order. For a node that is nowhere in the tree the data are
  unchanged. On the data of the tests, deleting TestC leaves TestB with the empty array.
\<close>

theorem delete_removes_the_node:
  "(distinct (refs (data s)) \<longrightarrow>
      data (delete s n) =
        (case remove_first_dfs n (data s) of Some d' \<Rightarrow> d' | None \<Rightarrow> data s)) \<and>
   (distinct (refs (data s)) \<and> n \<in> set (refs (data s)) \<longrightarrow>
      (\<exists>N \<in> set (objects (data s)). ref N = n \<and>
         refs (data (delete s n)) =
           filter (\<lambda>r. r \<notin> set (refs_node N)) (refs (data s)))) \<and>
   (n \<notin> set (refs (data s)) \<longrightarrow> data (delete s n) = data s) \<and>
   data (delete beforeEach 2) = [Node 0 ''TestA'' (Some [Node 1 ''TestB'' (Some [])])]"
proof (intro conjI impI)
  assume "distinct (refs (data s))"
  then show "data (delete s n) =
        (case remove_first_dfs n (data s) of Some d' \<Rightarrow> d' | None \<Rightarrow> data s)"
    by (simp add: delete_def update_frame delete_refines(1) del: delete'.simps)
next
  assume a: "distinct (refs (data s)) \<and> n \<in> set (refs (data s))"
  with remove_first_present(1)[of n "data s"] obtain d' where d': "remove_first_dfs n (data s) = Some d'"
    by auto
  with a have "data (delete s n) = d'"
    by (simp add: delete_def update_frame delete_refines(1) del: delete'.simps)
  with remove_first_refs(1)[OF _ d'] a
  show "\<exists>N \<in> set (objects (data s)). ref N = n \<and>
         refs (data (delete s n)) = filter (\<lambda>r. r \<notin> set (refs_node N)) (refs (data s))"
    by simp
next
  assume "n \<notin> set (refs (data s))"
  then show "data (delete s n) = data s"
    by (simp add: delete_def update_frame delete_absent(1) del: delete'.simps)
next
  show "data (delete beforeEach 2) = [Node 0 ''TestA'' (Some [Node 1 ''TestB'' (Some [])])]"
    by (simp add: delete_def update_frame beforeEach_fields testA_def testB_def testC_def
          splice_array_def spliceStart_def)
qed

theorem delete_removes_the_node_witness:
  "distinct (refs (data beforeEach)) \<and> 2 \<in> set (refs (data beforeEach)) \<and>
   remove_first_dfs 2 (data beforeEach) = Some [Node 0 ''TestA'' (Some [Node 1 ''TestB'' (Some [])])] \<and>
   data (delete beforeEach 2) = [Node 0 ''TestA'' (Some [Node 1 ''TestB'' (Some [])])] \<and>
   (\<exists>N \<in> set (objects (data beforeEach)). ref N = 2 \<and>
      refs (data (delete beforeEach 2)) =
        filter (\<lambda>r. r \<notin> set (refs_node N)) (refs (data beforeEach))) \<and>
   9 \<notin> set (refs (data beforeEach)) \<and> data (delete beforeEach 9) = data beforeEach"
proof -
  have h1: "distinct (refs (data beforeEach))" unfolding beforeEach_fields fixture_refs by simp
  have h2: "9 \<notin> set (refs (data beforeEach))" unfolding beforeEach_fields fixture_refs by simp
  have h3: "2 \<in> set (refs (data beforeEach))" unfolding beforeEach_fields fixture_refs by simp
  have r: "remove_first_dfs 2 (data beforeEach) = Some [Node 0 ''TestA'' (Some [Node 1 ''TestB'' (Some [])])]"
    by (simp add: beforeEach_fields testA_def testB_def testC_def)
  from delete_removes_the_node[of beforeEach 2] h1
  have a: "data (delete beforeEach 2) =
        (case remove_first_dfs 2 (data beforeEach) of Some d' \<Rightarrow> d' | None \<Rightarrow> data beforeEach)"
    by blast
  from delete_removes_the_node[of beforeEach 2] h1 h3
  have c: "\<exists>N \<in> set (objects (data beforeEach)). ref N = 2 \<and>
      refs (data (delete beforeEach 2)) =
        filter (\<lambda>r. r \<notin> set (refs_node N)) (refs (data beforeEach))" by blast
  from delete_removes_the_node[of beforeEach 9] h2
  have b: "data (delete beforeEach 9) = data beforeEach" by blast
  from a have "data (delete beforeEach 2) = [Node 0 ''TestA'' (Some [Node 1 ''TestB'' (Some [])])]"
    unfolding r by simp
  with h1 h2 h3 r b c show ?thesis by blast
qed

subsection \<open>Clones\<close>

lemma cloneDeep_content:
  "content (fst (cloneDeep k (n::'a node))) = content n"
  "map content (fst (cloneDeep_list k (ns::'a node list))) = map content ns"
  by (induction k n and k ns rule: cloneDeep_cloneDeep_list.induct)
     (auto split: option.splits prod.splits)

lemma cloneDeep_refs:
  "refs_node (fst (cloneDeep k (n::'a node))) = [k..<snd (cloneDeep k n)] \<and> k < snd (cloneDeep k n)"
  "refs (fst (cloneDeep_list k (ns::'a node list))) = [k..<snd (cloneDeep_list k ns)] \<and>
     k \<le> snd (cloneDeep_list k ns)"
proof (induction k n and k ns rule: cloneDeep_cloneDeep_list.induct)
  case (1 k r x cs)
  show ?case
  proof (cases cs)
    case None then show ?thesis by simp
  next
    case (Some ch)
    with 1[OF Some] show ?thesis by (auto split: prod.splits simp: upt_conv_Cons)
  qed
next
  case 2 show ?case by simp
next
  case (3 k c rest)
  obtain c' k' where c: "cloneDeep k c = (c', k')" by (cases "cloneDeep k c")
  obtain rest' k'' where r: "cloneDeep_list k' rest = (rest', k'')" by (cases "cloneDeep_list k' rest")
  from 3(1) c have 1: "refs_node c' = [k..<k']" "k < k'" by auto
  from 3(2)[OF c[symmetric] refl] r have 2: "refs rest' = [k'..<k'']" "k' \<le> k''" by auto
  from 1 2 have "[k..<k''] = [k..<k'] @ [k'..<k'']"
    by (metis le_Suc_ex less_imp_le_nat upt_add_eq_append)
  with c r 1 2 show ?case by simp
qed

lemma cloneDeep_ref: "ref (fst (cloneDeep k n)) = k"
  by (cases n) (auto split: option.splits prod.splits)

lemma mutate_absent:
  "r \<notin> set (refs_node (n::'a node)) \<Longrightarrow> mutate_node r f n = n"
  "r \<notin> set (refs (ns::'a node list)) \<Longrightarrow> mutate r f ns = ns"
  by (induction r f n and r f ns rule: mutate_node_mutate.induct) (auto split: option.splits)

lemma fold_max_ge: "k \<le> fold max xs (k::nat)"
  by (induction xs arbitrary: k) (auto intro: order_trans[OF max.cobounded2])

lemma fold_max_mem: "x \<in> set xs \<Longrightarrow> x \<le> fold max xs (k::nat)"
proof (induction xs arbitrary: k)
  case Nil then show ?case by simp
next
  case (Cons y ys)
  show ?case
  proof (cases "x = y")
    case True
    have "y \<le> max y k" by simp
    also have "\<dots> \<le> fold max ys (max y k)" by (rule fold_max_ge)
    finally show ?thesis using True by simp
  next
    case False with Cons show ?thesis by simp
  qed
qed

lemma freshRef_above:
  "r \<in> set (refs_node original) \<Longrightarrow> r < freshRef s original"
  "r \<in> set (refs (data s)) \<Longrightarrow> r < freshRef s original"
  "nextRef s \<le> freshRef s original"
proof -
  let ?xs = "map Suc (refs (data s) @ map (\<lambda>f. node (flatNodes s f)) [0..<nextFlat s] @
                 refs_node original)"
  { assume "r \<in> set (refs_node original)"
    then have "Suc r \<in> set ?xs" by simp
    from fold_max_mem[OF this, of "nextRef s"] show "r < freshRef s original"
      by (simp add: freshRef_def) }
  { assume "r \<in> set (refs (data s))"
    then have "Suc r \<in> set ?xs" by simp
    from fold_max_mem[OF this, of "nextRef s"] show "r < freshRef s original"
      by (simp add: freshRef_def) }
  show "nextRef s \<le> freshRef s original" unfolding freshRef_def by (rule fold_max_ge)
qed

lemma clone_returns:
  "fst (cloneAsChild s original x) = fst (cloneDeep (freshRef s original) original)"
  "fst (cloneAsSiblingBefore s original x) = fst (cloneDeep (freshRef s original) original)"
  "fst (cloneAsSiblingAfter s original x) = fst (cloneDeep (freshRef s original) original)"
  by (simp_all add: cloneAsChild_def cloneAsSiblingBefore_def cloneAsSiblingAfter_def split_beta)

lemma cloneDeep_new:
  assumes "\<forall>r \<in> set xs. r < k"
  shows "set (refs_node (fst (cloneDeep k original))) \<inter> set xs = {}"
  using assms cloneDeep_refs(1)[of k original] by auto

lemma clone_independent:
  fixes s :: "'a service" and original :: "'a node"
  defines "c \<equiv> fst (cloneDeep (freshRef s original) original)"
  shows "content c = content original \<and> ref c \<noteq> ref original \<and>
         set (refs_node c) \<inter> set (refs_node original) = {} \<and>
         set (refs_node c) \<inter> set (refs (data s)) = {} \<and>
         (\<forall>r \<in> set (refs_node c). \<forall>f.
            mutate_node r f original = original \<and> mutate r f (data s) = data s)"
proof -
  have 1: "set (refs_node c) \<inter> set (refs_node original) = {}"
    unfolding c_def by (rule cloneDeep_new) (simp add: freshRef_above)
  have 2: "set (refs_node c) \<inter> set (refs (data s)) = {}"
    unfolding c_def by (rule cloneDeep_new) (simp add: freshRef_above)
  have "ref c \<in> set (refs_node c)" by simp
  with 1 have 3: "ref c \<noteq> ref original" using ref_in_refs_node[of original] by (metis IntI empty_iff)
  have 4: "content c = content original" unfolding c_def by (rule cloneDeep_content)
  from 1 2 have 5: "\<forall>r \<in> set (refs_node c). \<forall>f.
            mutate_node r f original = original \<and> mutate r f (data s) = data s"
    by (auto intro!: mutate_absent)
  from 1 2 3 4 5 show ?thesis by blast
qed

lemma freshRef_beforeEach: "freshRef beforeEach testA = 3" "freshRef beforeEach testC = 3"
  by (simp_all add: freshRef_def beforeEach_state testA_def testB_def testC_def eval_nat_numeral)



text \<open>
  Claim C1 at the data of the tests: \<^verbatim>\<open>cloneAsChild(TestC, TestB)\<close> returns the
  object 3 and inserts the object 4, a second copy; the object it returns is not in the
  tree. \<^verbatim>\<open>cloneAsSiblingBefore\<close> and \<^verbatim>\<open>cloneAsSiblingAfter\<close> return the object
  they insert.
\<close>

theorem cloneAsChild_returns_other_copy:
  "fst (cloneAsChild beforeEach testC 1) = Node 3 ''TestC'' None \<and>
   data (snd (cloneAsChild beforeEach testC 1)) =
     [Node 0 ''TestA'' (Some [Node 1 ''TestB'' (Some [testC, Node 4 ''TestC'' None])])] \<and>
   ref (fst (cloneAsChild beforeEach testC 1))
     \<notin> set (refs (data (snd (cloneAsChild beforeEach testC 1)))) \<and>
   ref (fst (cloneAsSiblingBefore beforeEach testC 2))
     \<in> set (refs (data (snd (cloneAsSiblingBefore beforeEach testC 2)))) \<and>
   ref (fst (cloneAsSiblingAfter beforeEach testC 2))
     \<in> set (refs (data (snd (cloneAsSiblingAfter beforeEach testC 2))))"
  by (simp add: cloneAsChild_def cloneAsSiblingBefore_def cloneAsSiblingAfter_def
        freshRef_beforeEach(2)[unfolded testC_def]
        insertChild_def insertBefore_def insertAfter_def insertSibling_def parentChildren_def
        deref_def update_frame beforeEach_fields testA_def testB_def testC_def setChildren_def
        splice_array_def spliceStart_def)

section \<open>Properties of the flat nodes\<close>

subsection \<open>The map keeps its entries\<close>

lemma transformer_keeps:
  "nodeMap s r = Some f \<Longrightarrow> nodeMap (snd (transformer s n l)) r = Some f"
  by (cases "ref n = r") (auto simp: transformer_def Let_def split: option.splits)

lemma flattenNode_keeps:
  "nodeMap (snd acc) r = Some f \<Longrightarrow> nodeMap (snd (flattenNode (n::'a node) l acc)) r = Some f"
  and flattenChildren_keeps:
  "nodeMap (snd acc) r = Some f \<Longrightarrow> nodeMap (snd (flattenChildren (ns::'a node list) l acc)) r = Some f"
proof (induction n l acc and ns l acc rule: flattenNode_flattenChildren.induct)
  case (1 q x cs lvl resultNodes s)
  obtain g s' where t: "transformer s (Node q x cs) lvl = (g, s')"
    by (cases "transformer s (Node q x cs) lvl")
  from 1(2) transformer_keeps[of s r f "Node q x cs" lvl] t have k: "nodeMap s' r = Some f" by simp
  show ?case
  proof (cases "expandable (flatNodes s' g)")
    case False with t k show ?thesis by simp
  next
    case True
    show ?thesis
    proof (cases cs)
      case None with t k True show ?thesis by simp
    next
      case (Some ch)
      from 1(1)[OF t[symmetric] refl refl True Some] k t True Some show ?thesis by simp
    qed
  qed
next
  case 2 then show ?case by simp
next
  case 3 then show ?case by simp
qed

lemma flattenNodes_keeps:
  "nodeMap s r = Some f \<Longrightarrow> nodeMap (snd (flattenNodes ns s)) r = Some f"
proof -
  have "nodeMap (snd acc) r = Some f \<Longrightarrow>
        nodeMap (snd (foldl (\<lambda>acc n. flattenNode n 0 acc) acc ns)) r = Some f" for acc
    by (induction ns arbitrary: acc) (simp_all add: flattenNode_keeps)
  from this[of "([], s)"] show "nodeMap s r = Some f \<Longrightarrow> ?thesis" by (simp add: flattenNodes_def)
qed

lemma update_keeps: "nodeMap s r = Some f \<Longrightarrow> nodeMap (update s) r = Some f"
  using flattenNodes_keeps[of s r f "data s"] by (simp add: update_def split_beta)

lemma foldl_expansion_only:
  "(\<And>s n. \<exists>e. g s n = s\<lparr>expansion := e\<rparr>) \<Longrightarrow> \<exists>e. foldl g s ns = s\<lparr>expansion := e\<rparr>"
proof (induction ns arbitrary: s)
  case Nil
  have "s = s\<lparr>expansion := expansion s\<rparr>" by simp
  then show ?case by (metis foldl_Nil)
next
  case (Cons n ns)
  from Cons.prems[of s n] obtain e where e: "g s n = s\<lparr>expansion := e\<rparr>" by blast
  from Cons.IH[OF Cons.prems, of "g s n"] obtain e' where "foldl g (g s n) ns = (g s n)\<lparr>expansion := e'\<rparr>"
    by blast
  with e show ?case by auto
qed

lemma toggle_fold_expansion_only:
  "\<exists>e. foldl (toggleStep f q) s ns = s\<lparr>expansion := e\<rparr>"
  by (rule foldl_expansion_only) (auto simp: toggleStep_def expand_def collapse_def)

lemma expandLevel_expansion_only: "\<exists>e. expandLevel s l = s\<lparr>expansion := e\<rparr>"
  unfolding expandLevel_def
proof (rule foldl_expansion_only)
  fix s :: "'a service" and n
  have "s = s\<lparr>expansion := expansion s\<rparr>" by simp
  then have "\<exists>e. s = s\<lparr>expansion := e\<rparr>" by (rule exI)
  then show "\<exists>e. (if level (flatNodes s n) = l then expand s n else s) = s\<lparr>expansion := e\<rparr>"
    by (auto simp: expand_def)
qed

lemma toggleNode_expansion_only: "toggleNode s f = Some s' \<Longrightarrow> \<exists>e. s' = s\<lparr>expansion := e\<rparr>"
  using toggle_fold_expansion_only[of f _ s "dataNodes s"]
  by (auto simp: toggleNode_def collapse_def split: if_splits option.splits)

lemma perform_keeps:
  "nodeMap s r = Some f \<Longrightarrow> perform s op = Some s' \<Longrightarrow> nodeMap s' r = Some f"
proof (cases op)
  case (ToggleNode g)
  assume "nodeMap s r = Some f" "perform s op = Some s'"
  with ToggleNode toggleNode_expansion_only[of s g s'] show ?thesis by auto
next
  case (ExpandLevel l)
  assume "nodeMap s r = Some f" "perform s op = Some s'"
  with ExpandLevel expandLevel_expansion_only[of s l] show ?thesis by auto
qed (auto simp: setData_def insertChild_def insertBefore_def insertAfter_def insertSibling_def
       delete_def cloneAsChild_def cloneAsSiblingBefore_def cloneAsSiblingAfter_def split_beta
       expand_def collapse_def
       intro!: update_keeps transformer_keeps split: option.splits)

lemma performAll_keeps:
  "nodeMap s r = Some f \<Longrightarrow> performAll s ops = Some s' \<Longrightarrow> nodeMap s' r = Some f"
  by (induction ops arbitrary: s) (auto split: option.splits dest: perform_keeps)

lemma transformer_new:
  "nodeMap s (ref n) = None \<Longrightarrow>
     fst (transformer s n l) = nextFlat s \<and>
     nodeMap (snd (transformer s n l)) (ref n) = Some (nextFlat s) \<and>
     flatNodes (snd (transformer s n l)) (nextFlat s) =
       \<lparr>node = ref n, expandable = nonEmptyChildren n, level = l\<rparr> \<and>
     nextFlat (snd (transformer s n l)) = Suc (nextFlat s)"
  by (simp add: transformer_def Let_def)

lemma transformer_existing:
  "nodeMap s (ref n) = Some f \<Longrightarrow>
     fst (transformer s n l) = f \<and>
     nodeMap (snd (transformer s n l)) (ref n) = Some f \<and>
     flatNodes (snd (transformer s n l)) f =
       (flatNodes s f)\<lparr>level := l, expandable := nonEmptyChildren n\<rparr> \<and>
     nextFlat (snd (transformer s n l)) = nextFlat s"
  by (simp add: transformer_def)

lemma transformer_stores:
  "nodeMap (snd (transformer s n l)) (ref n) = Some (fst (transformer s n l))"
  by (simp add: transformer_def Let_def split: option.splits)

lemma nonEmptyChildren_iff:
  "nonEmptyChildren n \<longleftrightarrow> children n \<noteq> None \<and> children n \<noteq> Some []"
  by (cases "children n") (auto simp: nonEmptyChildren_def)

text \<open>
  Claim C8. The map is a function of the node reference, so it holds at most one flat
  node for it. For a reference the map does not hold, \<open>transformer\<close> makes a new flat
  node with the given level, stores it, and its \<open>expandable\<close> is true exactly when
  the node has a \<^verbatim>\<open>children\<close> array and the array is not empty. For a reference the
  map holds, \<open>transformer\<close> returns the flat node of the map and sets its level and its
  \<open>expandable\<close>, by the same rule. No operation of the service changes an entry of
  the map; so after a call of \<open>transformer\<close> and any operations, a call on the same
  node reference returns the same flat node, with the level and \<open>expandable\<close> of
  that call.
\<close>

theorem transformer_one_flat_node:
  "(nodeMap s (ref n) = None \<longrightarrow>
      fst (transformer s n l) = nextFlat s \<and>
      nodeMap (snd (transformer s n l)) (ref n) = Some (nextFlat s) \<and>
      flatNodes (snd (transformer s n l)) (nextFlat s) =
        \<lparr>node = ref n, expandable = (children n \<noteq> None \<and> children n \<noteq> Some []),
         level = l\<rparr> \<and>
      nextFlat (snd (transformer s n l)) = Suc (nextFlat s)) \<and>
   (nodeMap s (ref n) = Some f \<longrightarrow>
      fst (transformer s n l) = f \<and>
      nodeMap (snd (transformer s n l)) (ref n) = Some f \<and>
      flatNodes (snd (transformer s n l)) f =
        (flatNodes s f)\<lparr>level := l,
           expandable := (children n \<noteq> None \<and> children n \<noteq> Some [])\<rparr> \<and>
      nextFlat (snd (transformer s n l)) = nextFlat s) \<and>
   (nodeMap s r = Some f \<and> perform s op = Some s' \<longrightarrow> nodeMap s' r = Some f) \<and>
   (performAll (snd (transformer s n l)) ops = Some s' \<and> ref n' = ref n \<longrightarrow>
      fst (transformer s' n' l') = fst (transformer s n l) \<and>
      level (flatNodes (snd (transformer s' n' l')) (fst (transformer s n l))) = l' \<and>
      (expandable (flatNodes (snd (transformer s' n' l')) (fst (transformer s n l))) \<longleftrightarrow>
         children n' \<noteq> None \<and> children n' \<noteq> Some []))"
proof (intro conjI impI)
  assume a: "performAll (snd (transformer s n l)) ops = Some s' \<and> ref n' = ref n"
  let ?f = "fst (transformer s n l)"
  from a performAll_keeps[OF transformer_stores[of s n l], of ops s']
  have k: "nodeMap s' (ref n') = Some ?f" by simp
  from transformer_existing[OF k, of l']
  show "fst (transformer s' n' l') = ?f"
    and "level (flatNodes (snd (transformer s' n' l')) ?f) = l'"
    and "expandable (flatNodes (snd (transformer s' n' l')) ?f) \<longleftrightarrow>
           children n' \<noteq> None \<and> children n' \<noteq> Some []"
    by (simp_all add: nonEmptyChildren_iff)
next
  assume "nodeMap s r = Some f \<and> perform s op = Some s'"
  then show "nodeMap s' r = Some f" using perform_keeps[of s r f op s'] by blast
qed (simp_all add: transformer_new transformer_existing nonEmptyChildren_iff)

theorem transformer_one_flat_node_witness:
  "nodeMap beforeEach 7 = None \<and>
   fst (transformer beforeEach (Node 7 ''test'' None) 0) = 3 \<and>
   flatNodes (snd (transformer beforeEach (Node 7 ''test'' None) 0)) 3 =
     \<lparr>node = 7, expandable = False, level = 0\<rparr> \<and>
   flatNodes (snd (transformer beforeEach (Node 7 ''test'' (Some [])) 0)) 3 =
     \<lparr>node = 7, expandable = False, level = 0\<rparr> \<and>
   flatNodes (snd (transformer beforeEach (Node 7 ''test'' (Some [testC])) 0)) 3 =
     \<lparr>node = 7, expandable = True, level = 0\<rparr> \<and>
   nodeMap beforeEach 0 = Some 0 \<and>
   flatNodes beforeEach 0 = \<lparr>node = 0, expandable = True, level = 0\<rparr> \<and>
   fst (transformer beforeEach (Node 0 ''TestA'' (Some [])) 5) = 0 \<and>
   flatNodes (snd (transformer beforeEach (Node 0 ''TestA'' (Some [])) 5)) 0 =
     \<lparr>node = 0, expandable = False, level = 5\<rparr> \<and>
   flatNodes (snd (transformer beforeEach (Node 0 ''TestA'' None) 5)) 0 =
     \<lparr>node = 0, expandable = False, level = 5\<rparr> \<and>
   nodeMap beforeEach 2 = Some 2 \<and>
   flatNodes (snd (transformer beforeEach (Node 2 ''TestC'' (Some [Node 7 ''test'' None])) 5)) 2 =
     \<lparr>node = 2, expandable = True, level = 5\<rparr> \<and>
   perform beforeEach (Delete 2) = Some (delete beforeEach 2) \<and>
   nodeMap (delete beforeEach 2) 2 = Some 2 \<and>
   performAll (snd (transformer newService testC 2)) [Update, Expand 0] =
     Some (expand (update (snd (transformer newService testC 2))) 0) \<and>
   fst (transformer (expand (update (snd (transformer newService testC 2))) 0)
          (Node 2 ''TestC'' (Some [])) 0) =
     fst (transformer newService testC 2) \<and>
   \<not> expandable (flatNodes
        (snd (transformer (expand (update (snd (transformer newService testC 2))) 0)
          (Node 2 ''TestC'' (Some [])) 0))
        (fst (transformer newService testC 2)))"
proof -
  note T = transformer_one_flat_node
  have m7: "nodeMap beforeEach 7 = None" and m1: "nodeMap beforeEach 0 = Some 0"
    and m2: "nodeMap beforeEach 2 = Some 2" and nf: "nextFlat beforeEach = 3"
    and f1: "flatNodes beforeEach 0 = \<lparr>node = 0, expandable = True, level = 0\<rparr>"
    and f2: "flatNodes beforeEach 2 = \<lparr>node = 2, expandable = False, level = 2\<rparr>"
    by (simp_all add: beforeEach_state)
  have k7: "nodeMap beforeEach (ref (Node 7 ''test'' cs)) = None"
    and k1: "nodeMap beforeEach (ref (Node 0 ''TestA'' cs)) = Some 0"
    and k2: "nodeMap beforeEach (ref (Node 2 ''TestC'' cs)) = Some 2" for cs :: "string node list option"
    by (simp_all add: beforeEach_state)
  have new: "fst (transformer beforeEach (Node 7 ''test'' cs) 0) = 3 \<and>
        flatNodes (snd (transformer beforeEach (Node 7 ''test'' cs) 0)) 3 =
          \<lparr>node = 7, expandable = (cs \<noteq> None \<and> cs \<noteq> Some []), level = 0\<rparr>" for cs
    using T[where s=beforeEach and n="Node 7 ''test'' cs" and l=0, THEN conjunct1, THEN mp, OF k7]
    by (simp add: nf)
  have old1: "fst (transformer beforeEach (Node 0 ''TestA'' cs) 5) = 0 \<and>
        flatNodes (snd (transformer beforeEach (Node 0 ''TestA'' cs) 5)) 0 =
          \<lparr>node = 0, expandable = (cs \<noteq> None \<and> cs \<noteq> Some []), level = 5\<rparr>" for cs
    using T[where s=beforeEach and n="Node 0 ''TestA'' cs" and l=5 and f=0,
            THEN conjunct2, THEN conjunct1, THEN mp, OF k1]
    by (simp add: f1)
  have old2: "flatNodes (snd (transformer beforeEach (Node 2 ''TestC'' cs) 5)) 2 =
          \<lparr>node = 2, expandable = (cs \<noteq> None \<and> cs \<noteq> Some []), level = 5\<rparr>" for cs
    using T[where s=beforeEach and n="Node 2 ''TestC'' cs" and l=5 and f=2,
            THEN conjunct2, THEN conjunct1, THEN mp, OF k2]
    by (simp add: f2)
  have h3: "nodeMap beforeEach 2 = Some 2 \<and> perform beforeEach (Delete 2) = Some (delete beforeEach 2)"
    by (simp add: m2)
  from T[where s=beforeEach and r=2 and f=2 and op="Delete 2" and s'="delete beforeEach 2",
         THEN conjunct2, THEN conjunct2, THEN conjunct1, THEN mp, OF h3]
  have c: "nodeMap (delete beforeEach 2) 2 = Some 2" .
  let ?s' = "expand (update (snd (transformer newService testC 2))) 0"
  have h4: "performAll (snd (transformer newService testC 2)) [Update, Expand 0] = Some ?s' \<and>
            ref (Node 2 ''TestC'' (Some [])) = ref testC"
    by (simp add: testC_def)
  from T[where s=newService and n=testC and l=2 and ops="[Update, Expand 0]"
       and n'="Node 2 ''TestC'' (Some [])" and l'=0 and s'="?s'",
       THEN conjunct2, THEN conjunct2, THEN conjunct2, THEN mp, OF h4]
  have d: "fst (transformer ?s' (Node 2 ''TestC'' (Some [])) 0) = fst (transformer newService testC 2) \<and>
     \<not> expandable (flatNodes (snd (transformer ?s' (Node 2 ''TestC'' (Some [])) 0))
        (fst (transformer newService testC 2)))"
    by simp
  from h4 have h4': "performAll (snd (transformer newService testC 2)) [Update, Expand 0] = Some ?s'"
    by (rule conjunct1)
  from h3 have h3': "perform beforeEach (Delete 2) = Some (delete beforeEach 2)" by (rule conjunct2)
  note n1 = new[of None] note n2 = new[of "Some []"] note n3 = new[of "Some [testC]"]
  note o1 = old1[of "Some []"] note o2 = old1[of None]
  note o3 = old2[of "Some [Node 7 ''test'' None]"]
  show ?thesis
    apply (intro conjI)
    using m7 m1 m2 f1 n1 n2 n3 o1 o2 o3 h3' c h4' d by simp_all
qed

subsection \<open>update leaves the service flattened\<close>

lemma flatStep_refl:
  "mapConsistent (snd a) \<Longrightarrow> \<forall>n \<in> set (fst a). n < nextFlat (snd a) \<Longrightarrow> flatStep a a []"
  by (simp add: flatStep_def)

lemma flatStep_trans:
  assumes "flatStep a b xs" "flatStep b c ys"
  shows "flatStep a c (xs @ ys)"
proof -
  from assms have "map (\<lambda>n. node (flatNodes (snd c) n)) (fst b) =
        map (\<lambda>n. node (flatNodes (snd b) n)) (fst b)"
    by (intro map_cong) (auto simp: flatStep_def)
  with assms show ?thesis by (auto simp: flatStep_def)
qed

lemma transformer_flatStep:
  assumes "mapConsistent s" "\<forall>n \<in> set res. n < nextFlat s"
  shows "flatStep (res, s) (res @ [fst (transformer s n l)], snd (transformer s n l)) [ref n]"
proof (cases "nodeMap s (ref n)")
  case None
  with assms show ?thesis
    by (auto simp: flatStep_def transformer_def Let_def mapConsistent_def less_Suc_eq)
next
  case (Some f)
  with assms have "node (flatNodes s f) = ref n" "f < nextFlat s" by (auto simp: mapConsistent_def)
  with assms Some show ?thesis
    by (auto simp: flatStep_def transformer_def mapConsistent_def)
qed

lemma transformer_expandable:
  "expandable (flatNodes (snd (transformer s n l)) (fst (transformer s n l))) = nonEmptyChildren n"
  by (simp add: transformer_def Let_def split: option.splits)

lemma flatStep_inv:
  "flatStep a b xs \<Longrightarrow> mapConsistent (snd b) \<and> (\<forall>n \<in> set (fst b). n < nextFlat (snd b))"
  by (simp add: flatStep_def)

lemma flattenNode_flatStep:
  "mapConsistent (snd acc) \<and> (\<forall>n \<in> set (fst acc). n < nextFlat (snd acc)) \<Longrightarrow>
     flatStep acc (flattenNode (n::'a node) l acc) (refs_node n)"
  and flattenChildren_flatStep:
  "mapConsistent (snd acc) \<and> (\<forall>n \<in> set (fst acc). n < nextFlat (snd acc)) \<Longrightarrow>
     flatStep acc (flattenChildren (ns::'a node list) l acc) (refs ns)"
proof (induction n l acc and ns l acc rule: flattenNode_flattenChildren.induct)
  case (1 r x cs lvl resultNodes s)
  obtain g s' where t: "transformer s (Node r x cs) lvl = (g, s')"
    by (cases "transformer s (Node r x cs) lvl")
  from 1(2) transformer_flatStep[of s resultNodes "Node r x cs" lvl] t
  have st: "flatStep (resultNodes, s) (resultNodes @ [g], s') [r]" by simp
  from transformer_expandable[of s "Node r x cs" lvl] t
  have ex: "expandable (flatNodes s' g) = nonEmptyChildren (Node r x cs)" by simp
  show ?case
  proof (cases "expandable (flatNodes s' g)")
    case False
    with ex have "refs_node (Node r x cs) = [r]"
      by (auto simp: nonEmptyChildren_def split: option.splits)
    with st t False show ?thesis by simp
  next
    case True
    with ex obtain ch where ch: "cs = Some ch" by (auto simp: nonEmptyChildren_def split: option.splits)
    from 1(1)[OF t[symmetric] refl refl True ch] flatStep_inv[OF st]
    have "flatStep (resultNodes @ [g], s') (flattenChildren ch lvl (resultNodes @ [g], s')) (refs ch)"
      by simp
    from flatStep_trans[OF st this] t True ch show ?thesis by simp
  qed
next
  case (2 lvl acc)
  then show ?case by (simp add: flatStep_refl)
next
  case (3 c rest lvl acc)
  from 3(1)[OF 3(3)] have a: "flatStep acc (flattenNode c (lvl + 1) acc) (refs_node c)" .
  from 3(2)[OF flatStep_inv[OF a]] flatStep_trans[OF a] show ?case by simp
qed

lemma flattenNodes_flatStep:
  assumes "mapConsistent s"
  shows "flatStep ([], s) (flattenNodes ns s) (refs ns)"
proof -
  have "mapConsistent (snd acc) \<and> (\<forall>n \<in> set (fst acc). n < nextFlat (snd acc)) \<Longrightarrow>
        flatStep acc (foldl (\<lambda>acc n. flattenNode n 0 acc) acc ns) (refs ns)" for acc
  proof (induction ns arbitrary: acc)
    case Nil then show ?case by (simp add: flatStep_refl)
  next
    case (Cons c rest)
    from flattenNode_flatStep[OF Cons.prems, of c 0]
    have a: "flatStep acc (flattenNode c 0 acc) (refs_node c)" .
    from Cons.IH[OF flatStep_inv[OF a]] flatStep_trans[OF a] show ?case by simp
  qed
  from this[of "([], s)"] assms show ?thesis by (simp add: flattenNodes_def)
qed

lemma update_flattened:
  assumes "mapConsistent s"
  shows "flattened (update s) \<and> mapConsistent (update s) \<and>
         (\<forall>n \<in> set (dataNodes (update s)). n < nextFlat (update s))"
proof -
  obtain flat s' where f: "flattenNodes (data s) s = (flat, s')" by (cases "flattenNodes (data s) s")
  from flattenNodes_flatStep[OF assms, of "data s"] f
  have st: "flatStep ([], s) (flat, s') (refs (data s))" by simp
  from flattenNodes_frame[of "data s" s] f have d: "data s' = data s" by simp
  from f have u: "update s = s'\<lparr>dataNodes := flat, emitted := emitted s' @ [data s']\<rparr>"
    by (simp add: update_def)
  from st d show ?thesis unfolding u
    by (simp add: flatStep_def flattened_def mapConsistent_def)
qed

lemma mapConsistent_data [simp]:
  "mapConsistent (s\<lparr>data := d\<rparr>) = mapConsistent s"
  "mapConsistent (s\<lparr>nextRef := k\<rparr>) = mapConsistent s"
  "mapConsistent (s\<lparr>expansion := e\<rparr>) = mapConsistent s"
  by (simp_all add: mapConsistent_def)

lemma serviceInv_update: "mapConsistent s \<Longrightarrow> serviceInv (update s)"
  using update_flattened[of s] by (simp add: serviceInv_def)

lemma serviceInv_expansion [simp]: "serviceInv (s\<lparr>expansion := e\<rparr>) = serviceInv s"
  by (simp add: serviceInv_def flattened_def)

lemma transformer_dataNodes: "dataNodes (snd (transformer s n l)) = dataNodes s"
  by (simp add: transformer_def Let_def split: option.splits)

lemma serviceInv_transformer:
  assumes "serviceInv s"
  shows "serviceInv (snd (transformer s n l))"
proof -
  from assms have "mapConsistent s" "\<forall>n \<in> set (dataNodes s). n < nextFlat s"
    by (simp_all add: serviceInv_def)
  note h = this
  from transformer_flatStep[OF h, of n l]
  have st: "mapConsistent (snd (transformer s n l))"
    "nextFlat s \<le> nextFlat (snd (transformer s n l))"
    "\<forall>g < nextFlat s. node (flatNodes (snd (transformer s n l)) g) = node (flatNodes s g)"
    by (simp_all add: flatStep_def)
  from st(3) h(2) have "map (\<lambda>g. node (flatNodes (snd (transformer s n l)) g)) (dataNodes s) =
        map (\<lambda>g. node (flatNodes s g)) (dataNodes s)"
    by (intro map_cong) auto
  with assms st(1,2) h(2) show ?thesis
    by (auto simp: serviceInv_def flattened_def transformer_dataNodes transformer_frame)
qed

lemma perform_serviceInv:
  assumes "serviceInv s" "perform s op = Some s'"
  shows "serviceInv s'"
proof -
  from assms(1) have m: "mapConsistent s" by (simp add: serviceInv_def)
  show ?thesis
  proof (cases op)
    case (ToggleNode g)
    with assms toggleNode_expansion_only[of s g s'] show ?thesis by auto
  next
    case (ExpandLevel l)
    with assms expandLevel_expansion_only[of s l] show ?thesis by (metis option.inject perform.simps(11) serviceInv_expansion)
  next
    case (Transformer n l)
    with assms serviceInv_transformer[of s n l] show ?thesis by auto
  qed (use assms m in \<open>auto simp: setData_def insertChild_def insertBefore_def insertAfter_def
       insertSibling_def delete_def cloneAsChild_def cloneAsSiblingBefore_def
       cloneAsSiblingAfter_def split_beta expand_def collapse_def
       intro!: serviceInv_update split: option.splits\<close>)
qed

text \<open>
  A new service is flattened, every operation keeps the invariant, and so every service
  that the operations lead to from a new one is flattened.
\<close>

lemma serviceInv_newService: "serviceInv newService"
  by (simp add: serviceInv_def flattened_def mapConsistent_def newService_def)

lemma performAll_serviceInv:
  "serviceInv s \<Longrightarrow> performAll s ops = Some s' \<Longrightarrow> serviceInv s'"
  by (induction ops arbitrary: s) (auto split: option.splits dest: perform_serviceInv)

lemma reachable_flattened: "performAll newService ops = Some s \<Longrightarrow> flattened s"
  using performAll_serviceInv[OF serviceInv_newService, of ops s] by (simp add: serviceInv_def)

lemma flattened_beforeEach: "flattened beforeEach"
  by (simp add: flattened_def beforeEach_state fixture_refs[simplified])

subsection \<open>toggleNode\<close>

lemma toggle_fold:
  "foldl (toggleStep f q) s ns =
     s\<lparr>expansion := (expansion s - set ns) \<union> {n \<in> set ns. n = f \<or> node (flatNodes s n) \<in> set q}\<rparr>"
proof (induction ns arbitrary: s)
  case Nil show ?case by simp
next
  case (Cons n ns)
  show ?case
    unfolding foldl_Cons Cons.IH
    by (auto simp: toggleStep_def expand_def collapse_def intro!: arg_cong[where f="\<lambda>e. s\<lparr>expansion := e\<rparr>"])
qed

lemma toggleNode_expanded:
  "isExpanded s f \<Longrightarrow> toggleNode s f = Some (collapse s f)"
  by (simp add: toggleNode_def)

lemma toggleNode_collapsed:
  assumes "\<not> isExpanded s f" and "getNodePath (data s) (node (flatNodes s f)) = Some q"
  shows "toggleNode s f =
     Some (s\<lparr>expansion := (expansion s - set (dataNodes s)) \<union>
        {n \<in> set (dataNodes s). n = f \<or> node (flatNodes s n) \<in> set q}\<rparr>)"
  using assms by (simp add: toggleNode_def toggle_fold)

lemma toggle_C: "toggleNode beforeEach 2 = Some (beforeEach\<lparr>expansion := {0, 1, 2}\<rparr>)"
proof -
  have p: "getNodePath (data beforeEach) (node (flatNodes beforeEach 2)) = Some [0, 1, 2]"
    by (simp add: beforeEach_fields fixture_path)
  have c: "\<not> isExpanded beforeEach 2" by (simp add: isExpanded_def beforeEach_fields)
  have "(expansion beforeEach - set (dataNodes beforeEach)) \<union>
        {n \<in> set (dataNodes beforeEach). n = 2 \<or> node (flatNodes beforeEach n) \<in> set [0, 1, 2]}
        = {0, 1, 2}"
    by (auto simp: beforeEach_state)
  with toggleNode_collapsed[OF c p] show ?thesis by simp
qed

lemma toggle_C_twice:
  "toggleNode (beforeEach\<lparr>expansion := {0, 1, 2}\<rparr>) 2 = Some (beforeEach\<lparr>expansion := {0, 1}\<rparr>)"
proof -
  have "{0, 1, 2} - {2::nat} = {0, 1}" by auto
  then show ?thesis by (simp add: toggleNode_def isExpanded_def collapse_def)
qed

lemma paths_subset_refs:
  "q \<in> set (paths_node (P::'a node)) \<Longrightarrow> set q \<subseteq> set (refs_node P)"
  "q \<in> set (paths (ns::'a node list)) \<Longrightarrow> set q \<subseteq> set (refs ns)"
proof (induction P and ns arbitrary: q and q rule: paths_node_paths.induct)
  case (1 r x cs)
  show ?case
  proof (cases cs)
    case None with 1(2) show ?thesis by simp
  next
    case (Some ch)
    with 1(2) have "q = [r] \<or> (\<exists>q' \<in> set (paths ch). q = r # q')" by auto
    then show ?thesis
    proof
      assume "q = [r]" then show ?thesis by simp
    next
      assume "\<exists>q' \<in> set (paths ch). q = r # q'"
      then obtain q' where q': "q' \<in> set (paths ch)" "q = r # q'" by blast
      from 1(1)[OF Some q'(1)] q'(2) Some show ?thesis by auto
    qed
  qed
next
  case 2 then show ?case by simp
next
  case (3 c rest)
  then show ?case by auto
qed

lemma getNodePath_in_paths:
  assumes "distinct (refs d)" "n \<in> set (refs d)"
  shows "\<exists>q \<in> set (paths d). getNodePath d n = Some q \<and> last q = n"
proof -
  from assms(2) obtain q where "q \<in> set (paths d)" "last q = n"
    unfolding last_paths[symmetric] by auto
  with getNodePath_path[OF assms(1) this(1)] show ?thesis by auto
qed

text \<open>The service of the tests after \<^verbatim>\<open>delete(TestC)\<close>: the flat node 2 is still in the
  map and no longer in \<^verbatim>\<open>dataNodes\<close>.\<close>

lemma deleted_state:
  "delete beforeEach 2 =
     \<lparr>data = [Node 0 ''TestA'' (Some [Node 1 ''TestB'' (Some [])])],
      nodeMap = [0 \<mapsto> 0, 1 \<mapsto> 1, 2 \<mapsto> 2],
      flatNodes = (\<lambda>f. \<lparr>node = 0, expandable = False, level = 0\<rparr>)
        (0 := \<lparr>node = 0, expandable = True, level = 0\<rparr>,
         1 := \<lparr>node = 1, expandable = False, level = 1\<rparr>,
         2 := \<lparr>node = 2, expandable = False, level = 2\<rparr>),
      nextFlat = 3, dataNodes = [0, 1], expansion = {},
      emitted = [[testA], [Node 0 ''TestA'' (Some [Node 1 ''TestB'' (Some [])])]],
      nextRef = 0\<rparr>"
  by (simp add: delete_def beforeEach_state update_def flattenNodes_def transformer_def
        testA_def testB_def testC_def nonEmptyChildren_def Let_def eval_nat_numeral
        splice_array_def spliceStart_def fun_upd_twist)

text \<open>
  Claim C3, as the code has it. \<open>toggleNode\<close> on an expanded flat node collapses it.
  On a collapsed flat node of a tree it returns, and of the flat nodes in
  \<^verbatim>\<open>dataNodes\<close> exactly those are expanded afterwards that are the flat node itself or
  belong to a node on its path; all others of the sequence are collapsed, and a flat
  node outside the sequence keeps its state. So the flat node is expanded if it is in
  the sequence and stays collapsed if it is not; and where the sequence is the flattened
  tree, as every operation of the service leaves it (\<open>reachable_flattened\<close>), and
  holds the flat node, every node on its path has an expanded flat node. On the data of
  the tests, toggling the flat node of TestC expands those of TestC, TestB and TestA;
  toggling it again collapses TestC and leaves the other two expanded.
\<close>

theorem toggleNode_accordion:
  "(isExpanded s f \<longrightarrow>
      toggleNode s f = Some (collapse s f) \<and> \<not> isExpanded (collapse s f) f) \<and>
   (\<not> isExpanded s f \<and> distinct (refs (data s)) \<longrightarrow>
      (\<exists>q e. getNodePath (data s) (node (flatNodes s f)) = Some q \<and>
             last q = node (flatNodes s f) \<and>
             toggleNode s f = Some (s\<lparr>expansion := e\<rparr>) \<and>
             (\<forall>n \<in> set (dataNodes s).
                isExpanded (s\<lparr>expansion := e\<rparr>) n \<longleftrightarrow>
                  n = f \<or> node (flatNodes s n) \<in> set q) \<and>
             (\<forall>n. n \<notin> set (dataNodes s) \<longrightarrow>
                isExpanded (s\<lparr>expansion := e\<rparr>) n = isExpanded s n) \<and>
             (f \<in> set (dataNodes s) \<longrightarrow> isExpanded (s\<lparr>expansion := e\<rparr>) f) \<and>
             (f \<notin> set (dataNodes s) \<longrightarrow> \<not> isExpanded (s\<lparr>expansion := e\<rparr>) f) \<and>
             (flattened s \<and> f \<in> set (dataNodes s) \<longrightarrow>
                (\<forall>a \<in> set q. \<exists>n \<in> set (dataNodes s).
                   node (flatNodes s n) = a \<and> isExpanded (s\<lparr>expansion := e\<rparr>) n)))) \<and>
   Option.bind (toggleNode beforeEach 2) (\<lambda>s'. Some (map (isExpanded s') [2, 1, 0])) =
     Some [True, True, True] \<and>
   Option.bind (Option.bind (toggleNode beforeEach 2) (\<lambda>s'. toggleNode s' 2))
     (\<lambda>s'. Some (map (isExpanded s') [2, 1, 0])) = Some [False, True, True]"
proof (intro conjI impI)
  assume "isExpanded s f"
  then show "toggleNode s f = Some (collapse s f)" by (rule toggleNode_expanded)
next
  show "\<not> isExpanded (collapse s f) f" by (simp add: isExpanded_def collapse_def)
next
  assume a: "\<not> isExpanded s f \<and> distinct (refs (data s))"
  let ?r = "node (flatNodes s f)"
  from a getNodePath_total[of "data s" ?r]
  obtain q where q: "getNodePath (data s) ?r = Some q" and l: "last q = ?r" by blast
  let ?e = "(expansion s - set (dataNodes s)) \<union>
        {n \<in> set (dataNodes s). n = f \<or> node (flatNodes s n) \<in> set q}"
  let ?s' = "s\<lparr>expansion := ?e\<rparr>"
  from a toggleNode_collapsed[OF _ q] have t: "toggleNode s f = Some ?s'" by blast
  have 1: "\<forall>n \<in> set (dataNodes s). isExpanded ?s' n \<longleftrightarrow> n = f \<or> node (flatNodes s n) \<in> set q"
    by (auto simp: isExpanded_def)
  have 2: "\<forall>n. n \<notin> set (dataNodes s) \<longrightarrow> isExpanded ?s' n = isExpanded s n"
    by (auto simp: isExpanded_def)
  have 3: "f \<in> set (dataNodes s) \<longrightarrow> isExpanded ?s' f" by (simp add: isExpanded_def)
  from a have 4: "f \<notin> set (dataNodes s) \<longrightarrow> \<not> isExpanded ?s' f" by (auto simp: isExpanded_def)
  have 5: "\<forall>a \<in> set q. \<exists>n \<in> set (dataNodes s). node (flatNodes s n) = a \<and> isExpanded ?s' n"
    if fl: "flattened s \<and> f \<in> set (dataNodes s)"
  proof
    from fl have m: "(\<lambda>n. node (flatNodes s n)) ` set (dataNodes s) = set (refs (data s))"
      unfolding flattened_def by (metis set_map)
    with fl have "?r \<in> set (refs (data s))" by blast
    from getNodePath_in_paths[OF _ this] a q obtain q' where "q' \<in> set (paths (data s))" "q' = q"
      by auto
    with paths_subset_refs(2)[of q "data s"] have sub: "set q \<subseteq> set (refs (data s))" by simp
    fix a assume aq: "a \<in> set q"
    with sub have "a \<in> (\<lambda>n. node (flatNodes s n)) ` set (dataNodes s)" unfolding m by blast
    then obtain n where "n \<in> set (dataNodes s)" "node (flatNodes s n) = a" by auto
    with aq show "\<exists>n \<in> set (dataNodes s). node (flatNodes s n) = a \<and> isExpanded ?s' n"
      by (intro bexI[of _ n]) (simp_all add: isExpanded_def)
  qed
  from q l t 1 2 3 4 5
  show "\<exists>q e. getNodePath (data s) (node (flatNodes s f)) = Some q \<and>
             last q = node (flatNodes s f) \<and>
             toggleNode s f = Some (s\<lparr>expansion := e\<rparr>) \<and>
             (\<forall>n \<in> set (dataNodes s).
                isExpanded (s\<lparr>expansion := e\<rparr>) n \<longleftrightarrow>
                  n = f \<or> node (flatNodes s n) \<in> set q) \<and>
             (\<forall>n. n \<notin> set (dataNodes s) \<longrightarrow>
                isExpanded (s\<lparr>expansion := e\<rparr>) n = isExpanded s n) \<and>
             (f \<in> set (dataNodes s) \<longrightarrow> isExpanded (s\<lparr>expansion := e\<rparr>) f) \<and>
             (f \<notin> set (dataNodes s) \<longrightarrow> \<not> isExpanded (s\<lparr>expansion := e\<rparr>) f) \<and>
             (flattened s \<and> f \<in> set (dataNodes s) \<longrightarrow>
                (\<forall>a \<in> set q. \<exists>n \<in> set (dataNodes s).
                   node (flatNodes s n) = a \<and> isExpanded (s\<lparr>expansion := e\<rparr>) n))"
    by blast
next
  show "Option.bind (toggleNode beforeEach 2) (\<lambda>s'. Some (map (isExpanded s') [2, 1, 0])) =
     Some [True, True, True]"
    by (simp add: toggle_C isExpanded_def)
next
  show "Option.bind (Option.bind (toggleNode beforeEach 2) (\<lambda>s'. toggleNode s' 2))
     (\<lambda>s'. Some (map (isExpanded s') [2, 1, 0])) = Some [False, True, True]"
  proof -
    have "Option.bind (toggleNode beforeEach 2) (\<lambda>s'. toggleNode s' 2) =
          Some (beforeEach\<lparr>expansion := {0, 1}\<rparr>)"
      by (simp only: toggle_C Option.bind.simps toggle_C_twice)
    then show ?thesis by (simp add: isExpanded_def)
  qed
qed

theorem toggleNode_accordion_witness:
  "\<not> isExpanded beforeEach 2 \<and> distinct (refs (data beforeEach)) \<and>
   flattened beforeEach \<and> 2 \<in> set (dataNodes beforeEach) \<and>
   (\<exists>e. toggleNode beforeEach 2 = Some (beforeEach\<lparr>expansion := e\<rparr>) \<and>
        isExpanded (beforeEach\<lparr>expansion := e\<rparr>) 2 \<and>
        isExpanded (beforeEach\<lparr>expansion := e\<rparr>) 1 \<and>
        isExpanded (beforeEach\<lparr>expansion := e\<rparr>) 0) \<and>
   \<not> isExpanded (delete beforeEach 2) 2 \<and> distinct (refs (data (delete beforeEach 2))) \<and>
   2 \<notin> set (dataNodes (delete beforeEach 2)) \<and>
   (\<exists>e. toggleNode (delete beforeEach 2) 2 = Some ((delete beforeEach 2)\<lparr>expansion := e\<rparr>) \<and>
        \<not> isExpanded ((delete beforeEach 2)\<lparr>expansion := e\<rparr>) 2) \<and>
   isExpanded (expand beforeEach 2) 2 \<and>
   toggleNode (expand beforeEach 2) 2 = Some (collapse (expand beforeEach 2) 2)"
proof -
  note T = toggleNode_accordion
  have h1: "\<not> isExpanded beforeEach 2" by (simp add: isExpanded_def beforeEach_fields)
  have h2: "distinct (refs (data beforeEach))" unfolding beforeEach_fields fixture_refs by simp
  have h3: "isExpanded (expand beforeEach 2) 2" by (simp add: isExpanded_def expand_def)
  have h4: "flattened beforeEach \<and> 2 \<in> set (dataNodes beforeEach)"
    by (simp add: flattened_beforeEach beforeEach_fields)
  have h5: "\<not> isExpanded (delete beforeEach 2) 2 \<and> distinct (refs (data (delete beforeEach 2)))"
    by (simp add: isExpanded_def deleted_state)
  have h6: "2 \<notin> set (dataNodes (delete beforeEach 2))" by (simp add: deleted_state)
  from h1 h2 T[where s=beforeEach and f=2, THEN conjunct2, THEN conjunct1]
  obtain q e where q: "getNodePath (data beforeEach) (node (flatNodes beforeEach 2)) = Some q"
    and t: "toggleNode beforeEach 2 = Some (beforeEach\<lparr>expansion := e\<rparr>)"
    and f: "2 \<in> set (dataNodes beforeEach) \<longrightarrow> isExpanded (beforeEach\<lparr>expansion := e\<rparr>) 2"
    and a: "flattened beforeEach \<and> 2 \<in> set (dataNodes beforeEach) \<longrightarrow>
              (\<forall>a \<in> set q. \<exists>n \<in> set (dataNodes beforeEach).
                 node (flatNodes beforeEach n) = a \<and> isExpanded (beforeEach\<lparr>expansion := e\<rparr>) n)"
    by blast
  from q have "q = [0, 1, 2]" by (simp add: beforeEach_fields fixture_path)
  with a f h4 have "isExpanded (beforeEach\<lparr>expansion := e\<rparr>) 2 \<and>
        isExpanded (beforeEach\<lparr>expansion := e\<rparr>) 1 \<and>
        isExpanded (beforeEach\<lparr>expansion := e\<rparr>) 0"
    by (auto simp: beforeEach_state)
  with t have 1: "\<exists>e. toggleNode beforeEach 2 = Some (beforeEach\<lparr>expansion := e\<rparr>) \<and>
        isExpanded (beforeEach\<lparr>expansion := e\<rparr>) 2 \<and>
        isExpanded (beforeEach\<lparr>expansion := e\<rparr>) 1 \<and>
        isExpanded (beforeEach\<lparr>expansion := e\<rparr>) 0" by blast
  from h5 h6 T[where s="delete beforeEach 2" and f=2, THEN conjunct2, THEN conjunct1]
  have 3: "\<exists>e. toggleNode (delete beforeEach 2) 2 = Some ((delete beforeEach 2)\<lparr>expansion := e\<rparr>) \<and>
        \<not> isExpanded ((delete beforeEach 2)\<lparr>expansion := e\<rparr>) 2" by blast
  from h3 T[where s="expand beforeEach 2" and f=2, THEN conjunct1]
  have 2: "toggleNode (expand beforeEach 2) 2 = Some (collapse (expand beforeEach 2) 2)" by blast
  from h1 h2 h3 h4 h5 h6 1 2 3 show ?thesis by blast
qed

text \<open>
  Claim C3 as stated does not hold for a flat node that is not in \<^verbatim>\<open>dataNodes\<close>:
  after \<^verbatim>\<open>delete(TestC)\<close> the flat node of TestC, which \<^verbatim>\<open>getFlatNode\<close> still
  returns, is collapsed, and \<open>toggleNode\<close> on it collapses the expanded flat node of
  TestA and leaves the flat node of TestC collapsed.
\<close>

theorem toggleNode_stale_flat_node_stays_collapsed:
  "getFlatNode (delete beforeEach 2) 2 = Some 2 \<and>
   dataNodes (expand (delete beforeEach 2) 0) = [0, 1] \<and>
   \<not> isExpanded (expand (delete beforeEach 2) 0) 2 \<and>
   isExpanded (expand (delete beforeEach 2) 0) 0 \<and>
   toggleNode (expand (delete beforeEach 2) 0) 2 = Some ((delete beforeEach 2)\<lparr>expansion := {}\<rparr>) \<and>
   \<not> isExpanded ((delete beforeEach 2)\<lparr>expansion := {}\<rparr>) 2 \<and>
   \<not> isExpanded ((delete beforeEach 2)\<lparr>expansion := {}\<rparr>) 0"
proof -
  let ?s = "expand (delete beforeEach 2) 0"
  have p: "getNodePath (data ?s) (node (flatNodes ?s 2)) = Some [2]"
    by (simp add: expand_def deleted_state getNodePath_def loop_None)
  have c: "\<not> isExpanded ?s 2" by (simp add: isExpanded_def expand_def deleted_state)
  have e: "(expansion ?s - set (dataNodes ?s)) \<union>
        {n \<in> set (dataNodes ?s). n = 2 \<or> node (flatNodes ?s n) \<in> set [2]} = {}"
    by (auto simp: expand_def deleted_state)
  from toggleNode_collapsed[OF c p] have "toggleNode ?s 2 = Some (?s\<lparr>expansion := {}\<rparr>)"
    unfolding e .
  then have t: "toggleNode ?s 2 = Some ((delete beforeEach 2)\<lparr>expansion := {}\<rparr>)"
    by (simp add: expand_def)
  have r: "getFlatNode (delete beforeEach 2) 2 = Some 2" "dataNodes ?s = [0, 1]"
    "isExpanded ?s 0" "\<not> isExpanded ((delete beforeEach 2)\<lparr>expansion := {}\<rparr>) 2"
    "\<not> isExpanded ((delete beforeEach 2)\<lparr>expansion := {}\<rparr>) 0"
    by (simp_all add: getFlatNode_def isExpanded_def expand_def deleted_state)
  from r c t show ?thesis by (intro conjI)
qed

end
